theory Spec2Isabelle
  imports Main "HOL-Library.Multiset" "HOL-Library.Char_ord" "HOL-Library.List_Lexorder"
begin

section \<open>Data model (types.ts)\<close>

text \<open>
  A JavaScript object with string keys is a property list: the list of its own entries in
  the order \<^verbatim>\<open>Object.entries\<close> enumerates them, with pairwise distinct keys. The objects of
  the program (the node map, the \<^verbatim>\<open>inputs\<close> of a node, the locals \<^verbatim>\<open>grouped\<close> and
  \<^verbatim>\<open>normalized\<close>) are created by object literals, by spreading and by \<^verbatim>\<open>JSON.parse\<close>, so their
  prototype is \<^verbatim>\<open>Object.prototype\<close>: a property read \<^verbatim>\<open>o[k]\<close> yields the own value if \<open>k\<close> is
  an own key, the member of \<^verbatim>\<open>Object.prototype\<close> of that name if there is one, and
  \<^verbatim>\<open>undefined\<close> otherwise. (An \<^verbatim>\<open>inputs\<close> object whose prototype has been replaced, which
  \<^verbatim>\<open>setInput\<close> and \<^verbatim>\<open>connect\<close> can do under the input name \<^verbatim>\<open>__proto__\<close>, is outside the
  model.)
  Strings are lists of 8-bit characters compared by code.
\<close>

text \<open>Numbers are the integers, \<^verbatim>\<open>NaN\<close> and the two infinities: \<open>Num i\<close> stands for the
  number of value \<open>i\<close>. Fractions are left out.\<close>

datatype number = Num int | NaN | PosInfinity | NegInfinity

text \<open>\<^verbatim>\<open>InputValue = string | number | boolean | NodeConnection | null\<close>, where a
  \<^verbatim>\<open>NodeConnection\<close> is the pair \<^verbatim>\<open>[nodeId, port]\<close>.\<close>

datatype InputValue =
    VString string
  | VNumber number
  | VBoolean bool
  | VConnection string number
  | VNull

text \<open>\<^verbatim>\<open>NodeMeta\<close> has the one optional field \<^verbatim>\<open>title\<close>; \<^verbatim>\<open>_meta\<close> itself is optional.\<close>

record ComfyNode =
  inputs :: "(string \<times> InputValue) list"
  class_type :: string
  meta :: "string option option"

type_synonym ComfyWorkflowJson = "(string \<times> ComfyNode) list"

text \<open>The result of a property read \<^verbatim>\<open>o[k]\<close>: an own value, the member of
  \<^verbatim>\<open>Object.prototype\<close> named \<open>k\<close> (a function, or \<^verbatim>\<open>Object.prototype\<close> itself for
  \<^verbatim>\<open>__proto__\<close>), or \<^verbatim>\<open>undefined\<close>.\<close>

datatype 'a property = Value 'a | Inherited string | Undefined

definition objectPrototypeKeys :: "string list" where
  "objectPrototypeKeys =
     [''constructor'', ''__defineGetter__'', ''__defineSetter__'', ''hasOwnProperty'',
      ''__lookupGetter__'', ''__lookupSetter__'', ''isPrototypeOf'', ''propertyIsEnumerable'',
      ''toString'', ''valueOf'', ''__proto__'', ''toLocaleString'']"

definition getProperty :: "(string \<times> 'a) list \<Rightarrow> string \<Rightarrow> 'a property" where
  "getProperty obj k =
     (case map_of obj k of
        Some v \<Rightarrow> Value v
      | None \<Rightarrow> if k \<in> set objectPrototypeKeys then Inherited k else Undefined)"

text \<open>The one exception the modelled code can raise: a call of a property that is no
  function.\<close>

datatype error = TypeError

text \<open>The result types of the validators (validators.ts). \<^verbatim>\<open>severity\<close> is one of the strings
  \<^verbatim>\<open>'error'\<close> and \<^verbatim>\<open>'warning'\<close>.\<close>

datatype Severity = SeverityError | SeverityWarning

record ValidationError =
  nodeId :: "string option"
  inputName :: "string option"
  message :: string
  severity :: Severity

record ValidationResult =
  valid :: bool
  errors :: "ValidationError list"
  warnings :: "ValidationError list"

datatype StructuralDiffType =
    class_type_count_mismatch
  | missing_node_type
  | extra_node_type
  | input_mismatch
  | connection_mismatch

text \<open>The fields \<^verbatim>\<open>expected\<close> and \<^verbatim>\<open>actual\<close> have type \<^verbatim>\<open>unknown\<close>: at run time they hold a
  count (a number), a normalized connection (a string) or the result of reading an input.\<close>

record StructuralDiff =
  type :: StructuralDiffType
  classType :: "string option"
  inputName :: "string option"
  expected :: "InputValue property"
  actual :: "InputValue property"
  details :: string

text \<open>The type guard \<^verbatim>\<open>isNodeConnection\<close> tests the result of a property read; where it
  holds, the value is read as the pair \<^verbatim>\<open>[nodeId, port]\<close>.\<close>

fun isNodeConnection :: "InputValue property \<Rightarrow> bool" where
  "isNodeConnection (Value (VConnection sourceId port)) = True"
| "isNodeConnection _ = False"

fun asNodeConnection :: "InputValue property \<Rightarrow> (string \<times> number) option" where
  "asNodeConnection (Value (VConnection sourceId port)) = Some (sourceId, port)"
| "asNodeConnection _ = None"

text \<open>\<^verbatim>\<open>x === y\<close> on the results of two property reads: the same value, except that \<^verbatim>\<open>NaN\<close> is
  not equal to itself. (Two arrays are equal when they are the same object; the engine
  applies \<^verbatim>\<open>!==\<close> only where neither side is a connection.)\<close>

definition strictEquals :: "InputValue property \<Rightarrow> InputValue property \<Rightarrow> bool" where
  "strictEquals x y = (x = y \<and> x \<noteq> Value (VNumber NaN))"

section \<open>Strings, numbers and key order of the host language\<close>

fun digitsOf :: "nat \<Rightarrow> string" where
  "digitsOf n =
     (if n < 10 then [''0123456789'' ! n]
      else digitsOf (n div 10) @ [''0123456789'' ! (n mod 10)])"

declare digitsOf.simps [simp del]

definition showInt :: "int \<Rightarrow> string" where
  "showInt i = (if i < 0 then ''-'' @ digitsOf (nat (- i)) else digitsOf (nat i))"

text \<open>A number inside a template literal. Integers are written in decimal digits, as
  JavaScript prints them below \<open>10^21\<close>; the exponent form it prints from there on is not
  modelled.\<close>

fun showNumber :: "number \<Rightarrow> string" where
  "showNumber (Num i) = showInt i"
| "showNumber NaN = ''NaN''"
| "showNumber PosInfinity = ''Infinity''"
| "showNumber NegInfinity = ''-Infinity''"

definition hexDigit :: "nat \<Rightarrow> char" where
  "hexDigit n = ''0123456789abcdef'' ! (n mod 16)"

text \<open>\<^verbatim>\<open>JSON.stringify\<close> of a string: quotes and backslashes are escaped, control characters
  use the short escapes or \<^verbatim>\<open>\u00XX\<close>.\<close>

definition escapeChar :: "char \<Rightarrow> string" where
  "escapeChar c =
     (if c = CHR 0x22 then [CHR 0x5C, CHR 0x22]
      else if c = CHR 0x5C then [CHR 0x5C, CHR 0x5C]
      else if c = CHR 0x08 then [CHR 0x5C, CHR ''b'']
      else if c = CHR 0x09 then [CHR 0x5C, CHR ''t'']
      else if c = CHR 0x0A then [CHR 0x5C, CHR ''n'']
      else if c = CHR 0x0C then [CHR 0x5C, CHR ''f'']
      else if c = CHR 0x0D then [CHR 0x5C, CHR ''r'']
      else if (of_char c :: nat) < 32
        then [CHR 0x5C, CHR ''u'', CHR ''0'', CHR ''0'',
              hexDigit (of_char c div 16), hexDigit (of_char c)]
      else [c])"

definition quoteString :: "string \<Rightarrow> string" where
  "quoteString s = [CHR 0x22] @ concat (map escapeChar s) @ [CHR 0x22]"

text \<open>\<^verbatim>\<open>JSON.stringify\<close> of a number: \<^verbatim>\<open>NaN\<close> and the infinities are written \<^verbatim>\<open>null\<close>.\<close>

fun jsonNumber :: "number \<Rightarrow> string" where
  "jsonNumber (Num i) = showInt i"
| "jsonNumber _ = ''null''"

fun JSON_stringify :: "InputValue \<Rightarrow> string" where
  "JSON_stringify (VString s) = quoteString s"
| "JSON_stringify (VNumber n) = jsonNumber n"
| "JSON_stringify (VBoolean b) = (if b then ''true'' else ''false'')"
| "JSON_stringify (VConnection sourceId port) =
     ''['' @ quoteString sourceId @ '','' @ jsonNumber port @ '']''"
| "JSON_stringify VNull = ''null''"

text \<open>\<^verbatim>\<open>JSON.stringify\<close> inside a template literal. For \<^verbatim>\<open>undefined\<close> and for a function it
  returns \<^verbatim>\<open>undefined\<close>, which prints as its name; \<^verbatim>\<open>Object.prototype\<close> has no enumerable
  property and is written \<^verbatim>\<open>{}\<close>.\<close>

definition stringifyUnknown :: "InputValue property \<Rightarrow> string" where
  "stringifyUnknown v =
     (case v of
        Value x \<Rightarrow> JSON_stringify x
      | Inherited k \<Rightarrow> if k = ''__proto__'' then ''{}'' else ''undefined''
      | Undefined \<Rightarrow> ''undefined'')"

fun join :: "string \<Rightarrow> string list \<Rightarrow> string" where
  "join sep [] = []"
| "join sep [x] = x"
| "join sep (x # y # ys) = x @ sep @ join sep (y # ys)"

text \<open>A key is an array index when it is the canonical decimal form of an integer below
  \<open>2^32 - 1\<close>. An object enumerates its array-index keys first, in ascending numeric order,
  and then its other keys in insertion order.\<close>

definition isDigit :: "char \<Rightarrow> bool" where
  "isDigit c = (CHR ''0'' \<le> c \<and> c \<le> CHR ''9'')"

definition decimalValue :: "string \<Rightarrow> int" where
  "decimalValue s = foldl (\<lambda>n c. 10 * n + (of_char c - 48)) 0 s"

definition isArrayIndex :: "string \<Rightarrow> bool" where
  "isArrayIndex s =
     (s \<noteq> [] \<and> list_all isDigit s \<and> (s = ''0'' \<or> hd s \<noteq> CHR ''0'')
      \<and> decimalValue s < 4294967295)"

text \<open>\<^verbatim>\<open>Object.keys\<close> of an object whose keys were inserted in the order \<open>ks\<close>.\<close>

definition Object_keys :: "string list \<Rightarrow> string list" where
  "Object_keys ks =
     sort_key decimalValue (filter isArrayIndex ks) @ filter (\<lambda>k. \<not> isArrayIndex k) ks"

text \<open>\<^verbatim>\<open>new Set(xs)\<close>: the elements in order of first occurrence.\<close>

definition Set_add :: "'a list \<Rightarrow> 'a \<Rightarrow> 'a list" where
  "Set_add s x = (if x \<in> set s then s else s @ [x])"

definition new_Set :: "'a list \<Rightarrow> 'a list" where
  "new_Set xs = foldl Set_add [] xs"

section \<open>The graph store (ComfyWorkflow.ts)\<close>

text \<open>The state of a \<^verbatim>\<open>ComfyWorkflow\<close> is its private field \<^verbatim>\<open>nodes\<close>, a
  \<open>ComfyWorkflowJson\<close>.\<close>

definition isConnection :: "InputValue \<Rightarrow> bool" where
  "isConnection v = (case v of VConnection s p \<Rightarrow> True | _ \<Rightarrow> False)"

text \<open>The test \<^verbatim>\<open>isNodeConnection(value) && value[0] === nodeId\<close> on a stored value.\<close>

definition isConnectionFrom :: "string \<Rightarrow> InputValue \<Rightarrow> bool" where
  "isConnectionFrom ident v = (case v of VConnection s p \<Rightarrow> s = ident | _ \<Rightarrow> False)"

text \<open>\<^verbatim>\<open>removeNode\<close> returns early when \<^verbatim>\<open>this.nodes[nodeId]\<close> is falsy, which a node and a
  member of \<^verbatim>\<open>Object.prototype\<close> are not. Otherwise it deletes, in every node, the inputs
  that are connections from the removed id, and then the own property \<^verbatim>\<open>nodeId\<close> of the node
  map, if there is one.\<close>

definition detachInputs :: "string \<Rightarrow> ComfyNode \<Rightarrow> ComfyNode" where
  "detachInputs removedId node =
     node\<lparr>inputs := filter (\<lambda>(name, v). \<not> isConnectionFrom removedId v) (inputs node)\<rparr>"

definition removeNode :: "ComfyWorkflowJson \<Rightarrow> string \<Rightarrow> ComfyWorkflowJson" where
  "removeNode nodes removedId =
     (case getProperty nodes removedId of
        Undefined \<Rightarrow> nodes
      | _ \<Rightarrow>
          filter (\<lambda>(ident, node). ident \<noteq> removedId)
            (map (\<lambda>(ident, node). (ident, detachInputs removedId node)) nodes))"

section \<open>The equivalence engine (ComfyWorkflow.ts)\<close>

text \<open>\<^verbatim>\<open>groupNodesByType\<close> builds an object from class tag to the list of \<^verbatim>\<open>{id, node}\<close>
  entries of that class, in the order the nodes are enumerated. One iteration reads
  \<^verbatim>\<open>grouped[node.class_type]\<close>: if the read is falsy the key is inserted with a new array; then
  \<^verbatim>\<open>push\<close> is called on what the key reads as. For a class tag that names a member of
  \<^verbatim>\<open>Object.prototype\<close> the read is that member, which is truthy and has no \<^verbatim>\<open>push\<close>: the call
  raises a \<^verbatim>\<open>TypeError\<close>.\<close>

type_synonym Grouped = "(string \<times> (string \<times> ComfyNode) list) list"

definition groupPush :: "Grouped \<Rightarrow> string \<times> ComfyNode \<Rightarrow> error + Grouped" where
  "groupPush grouped e =
     (case getProperty grouped (class_type (snd e)) of
        Undefined \<Rightarrow> Inr (grouped @ [(class_type (snd e), [e])])
      | Inherited k \<Rightarrow> Inl TypeError
      | Value es \<Rightarrow>
          Inr (map (\<lambda>(ct, xs). if ct = class_type (snd e) then (ct, xs @ [e]) else (ct, xs))
                 grouped))"

fun groupLoop :: "Grouped \<Rightarrow> (string \<times> ComfyNode) list \<Rightarrow> error + Grouped" where
  "groupLoop grouped [] = Inr grouped"
| "groupLoop grouped (e # rest) =
     (case groupPush grouped e of
        Inl err \<Rightarrow> Inl err
      | Inr grouped' \<Rightarrow> groupLoop grouped' rest)"

definition groupNodesByType :: "ComfyWorkflowJson \<Rightarrow> error + Grouped" where
  "groupNodesByType nodes = groupLoop [] nodes"

text \<open>\<^verbatim>\<open>normalizeConnection\<close>, a method of the graph that owns the connection. When the read
  \<^verbatim>\<open>this.nodes[nodeId]\<close> is a member of \<^verbatim>\<open>Object.prototype\<close>, the guard \<^verbatim>\<open>!node\<close> does not fire
  and \<^verbatim>\<open>node.class_type\<close> is \<^verbatim>\<open>undefined\<close>.\<close>

definition normalizeConnection :: "ComfyWorkflowJson \<Rightarrow> string \<Rightarrow> number \<Rightarrow> string" where
  "normalizeConnection nodes sourceId port =
     (case getProperty nodes sourceId of
        Undefined \<Rightarrow> ''UNKNOWN:'' @ showNumber port
      | Inherited k \<Rightarrow> ''undefined:'' @ showNumber port
      | Value node \<Rightarrow> class_type node @ '':'' @ showNumber port)"

text \<open>\<^verbatim>\<open>hashNodeInputs\<close>: every input is encoded (a connection by its normal form, anything
  else by \<^verbatim>\<open>JSON.stringify\<close>) and assigned to \<^verbatim>\<open>normalized[key]\<close>; the keys of \<^verbatim>\<open>normalized\<close> are
  sorted and the pairs joined. The assignment of a string to \<^verbatim>\<open>normalized['__proto__']\<close> runs
  the setter of \<^verbatim>\<open>Object.prototype\<close>, which ignores it, so that input leaves no entry.\<close>

definition encodeInput :: "ComfyWorkflowJson \<Rightarrow> InputValue \<Rightarrow> string" where
  "encodeInput nodes v =
     (case v of
        VConnection sourceId port \<Rightarrow> normalizeConnection nodes sourceId port
      | _ \<Rightarrow> JSON_stringify v)"

definition hashNodeInputs :: "ComfyWorkflowJson \<Rightarrow> ComfyNode \<Rightarrow> string" where
  "hashNodeInputs nodes node =
     (let normalized = map (\<lambda>(key, v). (key, encodeInput nodes v))
                         (filter (\<lambda>(key, v). key \<noteq> ''__proto__'') (inputs node));
          sortedKeys = sort (Object_keys (map fst normalized))
      in join ''|''
           (map (\<lambda>k. k @ '':'' @ (case map_of normalized k of Some s \<Rightarrow> s | None \<Rightarrow> ''undefined''))
              sortedKeys))"

text \<open>One iteration of the loop of \<^verbatim>\<open>compareNodeInputs\<close>: the records pushed for one input
  name. \<open>this\<close> and \<open>other\<close> are the node maps of the two workflows.\<close>

definition inputNamePrefix :: "string \<Rightarrow> string" where
  "inputNamePrefix name = ''Input '' @ [CHR 0x22] @ name @ [CHR 0x22] @ '': ''"

definition compareInput ::
  "ComfyWorkflowJson \<Rightarrow> ComfyNode \<Rightarrow> ComfyNode \<Rightarrow> ComfyWorkflowJson \<Rightarrow> string \<Rightarrow> StructuralDiff list"
where
  "compareInput this thisNode otherNode other name =
     (let thisValue = getProperty (inputs thisNode) name;
          otherValue = getProperty (inputs otherNode) name
      in case (asNodeConnection thisValue, asNodeConnection otherValue) of
           (Some (tid, tport), Some (oid, oport)) \<Rightarrow>
             (let thisNormalized = normalizeConnection this tid tport;
                  otherNormalized = normalizeConnection other oid oport
              in if thisNormalized \<noteq> otherNormalized
                 then [\<lparr>type = connection_mismatch, classType = None, inputName = Some name,
                        expected = Value (VString otherNormalized),
                        actual = Value (VString thisNormalized),
                        details = inputNamePrefix name @ ''connection mismatch - expected ''
                          @ otherNormalized @ '', got '' @ thisNormalized\<rparr>]
                 else [])
         | _ \<Rightarrow>
             if isNodeConnection thisValue \<noteq> isNodeConnection otherValue
             then [\<lparr>type = input_mismatch, classType = None, inputName = Some name,
                    expected = otherValue, actual = thisValue,
                    details = inputNamePrefix name
                      @ ''type mismatch - one is connection, other is value''\<rparr>]
             else if \<not> strictEquals thisValue otherValue
             then (if thisValue = Undefined
                   then [\<lparr>type = input_mismatch, classType = None, inputName = Some name,
                          expected = otherValue, actual = Undefined,
                          details = inputNamePrefix name @ ''missing in this workflow''\<rparr>]
                   else if otherValue = Undefined
                   then [\<lparr>type = input_mismatch, classType = None, inputName = Some name,
                          expected = Undefined, actual = thisValue,
                          details = inputNamePrefix name @ ''extra in this workflow''\<rparr>]
                   else [\<lparr>type = input_mismatch, classType = None, inputName = Some name,
                          expected = otherValue, actual = thisValue,
                          details = inputNamePrefix name @ ''expected ''
                            @ stringifyUnknown otherValue @ '', got ''
                            @ stringifyUnknown thisValue\<rparr>])
             else [])"

definition compareNodeInputs ::
  "ComfyWorkflowJson \<Rightarrow> ComfyNode \<Rightarrow> ComfyNode \<Rightarrow> ComfyWorkflowJson \<Rightarrow> StructuralDiff list"
where
  "compareNodeInputs this thisNode otherNode other =
     concat (map (compareInput this thisNode otherNode other)
       (new_Set (map fst (inputs thisNode) @ map fst (inputs otherNode))))"

text \<open>The matching loop of \<^verbatim>\<open>findBestNodeMatching\<close>. The state is the array \<^verbatim>\<open>unmatchedThis\<close>
  and the set \<^verbatim>\<open>unmatchedOther\<close> (in insertion order); the outer loop runs over the indices
  of \<^verbatim>\<open>thisHashes\<close>, the inner one takes the first remaining index of equal hash.\<close>

fun matchLoop ::
  "string list \<Rightarrow> string list \<Rightarrow> nat list \<Rightarrow> nat list \<times> nat list \<Rightarrow> nat list \<times> nat list"
where
  "matchLoop thisHashes otherHashes [] st = st"
| "matchLoop thisHashes otherHashes (i # rest) (unmatchedThis, unmatchedOther) =
     (case find (\<lambda>j. thisHashes ! i = otherHashes ! j) unmatchedOther of
        Some j \<Rightarrow> matchLoop thisHashes otherHashes rest (unmatchedThis, remove1 j unmatchedOther)
      | None \<Rightarrow> matchLoop thisHashes otherHashes rest (unmatchedThis @ [i], unmatchedOther))"

definition findBestNodeMatching ::
  "ComfyWorkflowJson \<Rightarrow> (string \<times> ComfyNode) list \<Rightarrow> (string \<times> ComfyNode) list
     \<Rightarrow> ComfyWorkflowJson \<Rightarrow> StructuralDiff list"
where
  "findBestNodeMatching this thisNodes otherNodes other =
     (let thisHashes = map (\<lambda>n. hashNodeInputs this (snd n)) thisNodes;
          otherHashes = map (\<lambda>n. hashNodeInputs other (snd n)) otherNodes
      in case matchLoop thisHashes otherHashes [0..<length thisHashes]
                ([], [0..<length otherHashes]) of
           (thisIdx # _, otherIdx # _) \<Rightarrow>
             compareNodeInputs this (snd (thisNodes ! thisIdx)) (snd (otherNodes ! otherIdx)) other
         | _ \<Rightarrow> [])"

text \<open>The body of the loop of \<^verbatim>\<open>getStructuralDiff\<close> for one class tag, and the method
  itself. The loop runs over the own keys of the two groupings; none of them names a
  member of \<^verbatim>\<open>Object.prototype\<close> (the grouping raises on such a class tag), so the read
  \<^verbatim>\<open>grouped[classType] || []\<close> is the own array or, for \<^verbatim>\<open>undefined\<close>, the empty array.\<close>

definition groupOf :: "Grouped \<Rightarrow> string \<Rightarrow> (string \<times> ComfyNode) list" where
  "groupOf grouped ct = (case map_of grouped ct of Some es \<Rightarrow> es | None \<Rightarrow> [])"

definition classDiff ::
  "ComfyWorkflowJson \<Rightarrow> ComfyWorkflowJson \<Rightarrow> Grouped \<Rightarrow> Grouped \<Rightarrow> string \<Rightarrow> StructuralDiff list"
where
  "classDiff this other thisGrouped otherGrouped ct =
     (let thisNodes = groupOf thisGrouped ct;
          otherNodes = groupOf otherGrouped ct
      in if length thisNodes \<noteq> length otherNodes
         then [\<lparr>type = class_type_count_mismatch, classType = Some ct, inputName = None,
                expected = Value (VNumber (Num (int (length otherNodes)))),
                actual = Value (VNumber (Num (int (length thisNodes)))),
                details = ct @ '': expected '' @ showNumber (Num (int (length otherNodes)))
                  @ '' nodes, got '' @ showNumber (Num (int (length thisNodes)))\<rparr>]
         else if length thisNodes = 1
         then map (\<lambda>d. d\<lparr>classType := Some ct\<rparr>)
                (compareNodeInputs this (snd (thisNodes ! 0)) (snd (otherNodes ! 0)) other)
         else if length thisNodes > 1
         then map (\<lambda>d. d\<lparr>classType := Some ct\<rparr>)
                (findBestNodeMatching this thisNodes otherNodes other)
         else [])"

text \<open>\<^verbatim>\<open>getStructuralDiff\<close> groups the subject, then the reference; an exception of either
  grouping ends the call.\<close>

definition getStructuralDiff ::
  "ComfyWorkflowJson \<Rightarrow> ComfyWorkflowJson \<Rightarrow> error + StructuralDiff list"
where
  "getStructuralDiff this other =
     (case groupNodesByType this of
        Inl err \<Rightarrow> Inl err
      | Inr thisGrouped \<Rightarrow>
          (case groupNodesByType other of
             Inl err \<Rightarrow> Inl err
           | Inr otherGrouped \<Rightarrow>
               (let allClassTypes =
                      new_Set (Object_keys (map fst thisGrouped) @ Object_keys (map fst otherGrouped))
                in Inr (concat (map (classDiff this other thisGrouped otherGrouped) allClassTypes)))))"

definition isStructurallyEquivalentTo :: "ComfyWorkflowJson \<Rightarrow> ComfyWorkflowJson \<Rightarrow> error + bool" where
  "isStructurallyEquivalentTo this other =
     (case getStructuralDiff this other of
        Inl err \<Rightarrow> Inl err
      | Inr diffs \<Rightarrow> Inr (length diffs = 0))"

text \<open>The invariant of the objects of the host language: own keys are pairwise distinct,
  in the node map and in every \<^verbatim>\<open>inputs\<close> object.\<close>

definition wf_workflow :: "ComfyWorkflowJson \<Rightarrow> bool" where
  "wf_workflow nodes =
     (distinct (map fst nodes) \<and> list_all (\<lambda>e. distinct (map fst (inputs (snd e)))) nodes)"

text \<open>The nodes of one class tag, in enumeration order, and their number.\<close>

definition nodesOfClass :: "ComfyWorkflowJson \<Rightarrow> string \<Rightarrow> (string \<times> ComfyNode) list" where
  "nodesOfClass nodes ct = filter (\<lambda>e. class_type (snd e) = ct) nodes"

section \<open>Validation (validators.ts)\<close>

definition quoted :: "string \<Rightarrow> string" where
  "quoted s = [CHR 0x22] @ s @ [CHR 0x22]"

text \<open>The first loop of \<^verbatim>\<open>validateConnections\<close> does two things for every connection-valued
  input: it adds the source id and the owning node's id to the set
  \<^verbatim>\<open>referencedNodeIds\<close>, and it pushes an error when the source id is no key of the
  workflow.\<close>

definition referencedNodeIds :: "ComfyWorkflowJson \<Rightarrow> string list" where
  "referencedNodeIds json =
     new_Set (concat (map (\<lambda>(ident, node).
        concat (map (\<lambda>(name, v).
           case v of VConnection sourceNodeId port \<Rightarrow> [sourceNodeId, ident] | _ \<Rightarrow> [])
          (inputs node))) json))"

definition connectionErrors :: "ComfyWorkflowJson \<Rightarrow> ValidationError list" where
  "connectionErrors json =
     concat (map (\<lambda>(ident, node).
        concat (map (\<lambda>(name, v).
           case v of
             VConnection sourceNodeId port \<Rightarrow>
               if sourceNodeId \<notin> set (new_Set (map fst json))
               then [\<lparr>nodeId = Some ident, ValidationError.inputName = Some name,
                      message = ''Node '' @ quoted ident @ '' references non-existent node ''
                        @ quoted sourceNodeId @ '' in input '' @ quoted name,
                      severity = SeverityError\<rparr>]
               else []
           | _ \<Rightarrow> [])
          (inputs node))) json)"

definition isolationWarnings :: "ComfyWorkflowJson \<Rightarrow> ValidationError list" where
  "isolationWarnings json =
     concat (map (\<lambda>ident.
        if ident \<notin> set (referencedNodeIds json)
        then [\<lparr>nodeId = Some ident, ValidationError.inputName = None,
               message = ''Node '' @ quoted ident
                 @ '' is isolated (no incoming or outgoing connections)'',
               severity = SeverityWarning\<rparr>]
        else [])
       (new_Set (map fst json)))"

definition validateConnections :: "ComfyWorkflowJson \<Rightarrow> ValidationResult" where
  "validateConnections json =
     \<lparr>valid = (length (connectionErrors json) = 0),
      errors = connectionErrors json,
      warnings = isolationWarnings json\<rparr>"

text \<open>The two ways a node takes part in a connection: its id occurs as the source of a
  connection somewhere in the workflow (outgoing), or the node stored under the id has a
  connection-valued input (incoming).\<close>

definition occursAsSource :: "ComfyWorkflowJson \<Rightarrow> string \<Rightarrow> bool" where
  "occursAsSource json ident =
     list_ex (\<lambda>e. list_ex (\<lambda>kv. isConnectionFrom ident (snd kv)) (inputs (snd e))) json"

definition hasConnectionInput :: "ComfyWorkflowJson \<Rightarrow> string \<Rightarrow> bool" where
  "hasConnectionInput json ident =
     (case map_of json ident of
        None \<Rightarrow> False
      | Some node \<Rightarrow> list_ex (\<lambda>kv. isConnection (snd kv)) (inputs node))"

section \<open>The matching step in the words of the specification\<close>

text \<open>
  The nodes of the subject are taken in their original order; each is paired with the
  first remaining node of the reference whose content hash is equal, which is then no
  longer available. The result is the list of unmatched subject nodes and the list of
  unmatched reference nodes, both in original order.
\<close>

fun greedyPairing ::
  "('a \<Rightarrow> string) \<Rightarrow> ('b \<Rightarrow> string) \<Rightarrow> 'a list \<Rightarrow> 'b list \<Rightarrow> 'a list \<times> 'b list"
where
  "greedyPairing hashA hashB [] bs = ([], bs)"
| "greedyPairing hashA hashB (a # as) bs =
     (case find (\<lambda>b. hashB b = hashA a) bs of
        Some b \<Rightarrow> greedyPairing hashA hashB as (remove1 b bs)
      | None \<Rightarrow> (a # fst (greedyPairing hashA hashB as bs), snd (greedyPairing hashA hashB as bs)))"

text \<open>If unmatched nodes remain on both sides, node-input-diff runs on the first unmatched
  subject node against the first unmatched reference node, and on no other pair.\<close>

definition specMultiNodeDiff ::
  "ComfyWorkflowJson \<Rightarrow> (string \<times> ComfyNode) list \<Rightarrow> (string \<times> ComfyNode) list
     \<Rightarrow> ComfyWorkflowJson \<Rightarrow> StructuralDiff list"
where
  "specMultiNodeDiff A as bs B =
     (case greedyPairing (\<lambda>n. hashNodeInputs A (snd n)) (\<lambda>n. hashNodeInputs B (snd n)) as bs of
        (a # _, b # _) \<Rightarrow> compareNodeInputs A (snd a) (snd b) B
      | _ \<Rightarrow> [])"

section \<open>Renaming of node ids\<close>

text \<open>A remapping \<open>r\<close> of node ids applied to a node's connection sources, and to an entry
  of the node map (its key and its node).\<close>

definition renameValue :: "(string \<Rightarrow> string) \<Rightarrow> InputValue \<Rightarrow> InputValue" where
  "renameValue r v = (case v of VConnection s p \<Rightarrow> VConnection (r s) p | _ \<Rightarrow> v)"

definition renameNode :: "(string \<Rightarrow> string) \<Rightarrow> ComfyNode \<Rightarrow> ComfyNode" where
  "renameNode r node = node\<lparr>inputs := map (\<lambda>(k, v). (k, renameValue r v)) (inputs node)\<rparr>"

definition renameEntry :: "(string \<Rightarrow> string) \<Rightarrow> string \<times> ComfyNode \<Rightarrow> string \<times> ComfyNode" where
  "renameEntry r e = (r (fst e), renameNode r (snd e))"

text \<open>The ids a workflow mentions: its keys and the sources of its connections.\<close>

definition sourcesOf :: "ComfyNode \<Rightarrow> string list" where
  "sourcesOf node =
     concat (map (\<lambda>kv. case snd kv of VConnection s p \<Rightarrow> [s] | _ \<Rightarrow> []) (inputs node))"

definition connectionSources :: "ComfyWorkflowJson \<Rightarrow> string set" where
  "connectionSources nodes = set (concat (map (\<lambda>e. sourcesOf (snd e)) nodes))"

section \<open>Sample workflows\<close>

definition sampleWorkflow :: ComfyWorkflowJson where
  "sampleWorkflow =
     [(''1'', \<lparr>inputs = [(''image'', VString ''a.png'')], class_type = ''LoadImage'', meta = None\<rparr>),
      (''2'', \<lparr>inputs = [(''image'', VString ''b.png'')], class_type = ''LoadImage'', meta = None\<rparr>),
      (''3'', \<lparr>inputs = [(''vae_name'', VString ''m.safetensors'')], class_type = ''VAELoader'',
              meta = Some (Some ''VAE'')\<rparr>),
      (''4'', \<lparr>inputs = [(''pixels'', VConnection ''1'' (Num 0)), (''vae'', VConnection ''3'' (Num 0)),
                         (''steps'', VNumber (Num 20))],
              class_type = ''VAEEncode'', meta = None\<rparr>)]"

text \<open>Two workflows of the same shape whose node ids differ.\<close>

definition workflow1 :: ComfyWorkflowJson where
  "workflow1 =
     [(''1'', \<lparr>inputs = [], class_type = ''VAELoader'', meta = None\<rparr>),
      (''2'', \<lparr>inputs = [(''vae'', VConnection ''1'' (Num 0))], class_type = ''VAEEncode'',
              meta = None\<rparr>)]"

definition workflow2 :: ComfyWorkflowJson where
  "workflow2 =
     [(''99'', \<lparr>inputs = [], class_type = ''VAELoader'', meta = None\<rparr>),
      (''100'', \<lparr>inputs = [(''vae'', VConnection ''99'' (Num 0))], class_type = ''VAEEncode'',
                meta = None\<rparr>)]"


text \<open>A workflow whose only connection is dangling.\<close>

definition danglingWorkflow1 :: ComfyWorkflowJson where
  "danglingWorkflow1 =
     [(''2'', \<lparr>inputs = [(''vae'', VConnection ''7'' (Num 1))], class_type = ''VAEEncode'',
              meta = None\<rparr>)]"

text \<open>The sample workflow with other ids and a different second image.\<close>

definition variantWorkflow :: ComfyWorkflowJson where
  "variantWorkflow =
     [(''10'', \<lparr>inputs = [(''image'', VString ''a.png'')], class_type = ''LoadImage'', meta = None\<rparr>),
      (''20'', \<lparr>inputs = [(''image'', VString ''c.png'')], class_type = ''LoadImage'', meta = None\<rparr>),
      (''30'', \<lparr>inputs = [(''vae_name'', VString ''m.safetensors'')], class_type = ''VAELoader'',
              meta = None\<rparr>),
      (''40'', \<lparr>inputs = [(''pixels'', VConnection ''10'' (Num 0)), (''vae'', VConnection ''30'' (Num 0)),
                         (''steps'', VNumber (Num 20))],
              class_type = ''VAEEncode'', meta = None\<rparr>)]"

text \<open>The workflow after \<^verbatim>\<open>addNode('KSampler', { cfg: NaN })\<close>.\<close>

definition nanWorkflow :: ComfyWorkflowJson where
  "nanWorkflow =
     [(''1'', \<lparr>inputs = [(''cfg'', VNumber NaN)], class_type = ''KSampler'', meta = None\<rparr>)]"

text \<open>The workflow after two such calls: two nodes of one class with equal inputs.\<close>

definition nanPairWorkflow :: ComfyWorkflowJson where
  "nanPairWorkflow =
     [(''1'', \<lparr>inputs = [(''cfg'', VNumber NaN)], class_type = ''KSampler'', meta = None\<rparr>),
      (''2'', \<lparr>inputs = [(''cfg'', VNumber NaN)], class_type = ''KSampler'', meta = None\<rparr>)]"

text \<open>Workflows whose nodes have a class tag that names a member of \<^verbatim>\<open>Object.prototype\<close>:
  after \<^verbatim>\<open>addNode('toString')\<close>; after \<^verbatim>\<open>addNode('toString', { x: 1 })\<close> and
  \<^verbatim>\<open>addNode('toString', { x: 2 })\<close>; and the latter with another value in the second node.\<close>

definition prototypeClassWorkflow :: ComfyWorkflowJson where
  "prototypeClassWorkflow =
     [(''1'', \<lparr>inputs = [], class_type = ''toString'', meta = None\<rparr>)]"

definition prototypeClassPair :: ComfyWorkflowJson where
  "prototypeClassPair =
     [(''1'', \<lparr>inputs = [(''x'', VNumber (Num 1))], class_type = ''toString'', meta = None\<rparr>),
      (''2'', \<lparr>inputs = [(''x'', VNumber (Num 2))], class_type = ''toString'', meta = None\<rparr>)]"

definition prototypeClassPairVariant :: ComfyWorkflowJson where
  "prototypeClassPairVariant =
     [(''1'', \<lparr>inputs = [(''x'', VNumber (Num 1))], class_type = ''toString'', meta = None\<rparr>),
      (''2'', \<lparr>inputs = [(''x'', VNumber (Num 3))], class_type = ''toString'', meta = None\<rparr>)]"

text \<open>Workflows whose only connection is dangling and has a source id that names a member
  of \<^verbatim>\<open>Object.prototype\<close>.\<close>

definition constructorWorkflow :: ComfyWorkflowJson where
  "constructorWorkflow =
     [(''2'', \<lparr>inputs = [(''vae'', VConnection ''constructor'' (Num 0)), (''steps'', VNumber (Num 20))],
              class_type = ''VAEEncode'', meta = None\<rparr>)]"

definition inheritedDanglingWorkflow :: ComfyWorkflowJson where
  "inheritedDanglingWorkflow =
     [(''2'', \<lparr>inputs = [(''vae'', VConnection ''toString'' (Num 1))], class_type = ''VAEEncode'',
              meta = None\<rparr>)]"

text \<open>The remapping that sends the dangling source of \<open>danglingWorkflow1\<close> to that of
  \<open>inheritedDanglingWorkflow\<close>.\<close>

definition danglingRenaming :: "string \<Rightarrow> string" where
  "danglingRenaming s = (if s = ''7'' then ''toString'' else s)"

section \<open>Query operations and the sharing of connection arrays\<close>

text \<open>
  Whether a returned value shares state with the graph cannot be read off the value model
  above, so the query operations are modelled over a store. A connection \<^verbatim>\<open>[id, port]\<close> is
  an array object: the store is the list of all array objects and an address is an index
  into it. A property holds a primitive or a reference to an array. The node map, the
  nodes and their \<^verbatim>\<open>inputs\<close> objects are never handed out by any method of the class, so
  they are kept as values; only arrays can be shared with a caller.
\<close>

datatype primitive = PString string | PNumber int | PBoolean bool | PNull | PUndefined

datatype slot = Prim primitive | ArrayRef nat

type_synonym heap = "primitive list list"

record StoredNode =
  inputSlots :: "(string \<times> slot) list"
  classTag :: string
  storedMeta :: "string option option"

type_synonym StoredNodes = "(string \<times> StoredNode) list"

text \<open>\<^verbatim>\<open>getInput\<close> returns \<^verbatim>\<open>node.inputs[name]\<close> as it is stored; \<^verbatim>\<open>getInputs\<close> returns
  \<^verbatim>\<open>{ ...node.inputs }\<close>, a new object with the same property values.\<close>

definition getInput :: "StoredNodes \<Rightarrow> string \<Rightarrow> string \<Rightarrow> slot option" where
  "getInput nodes ident name =
     (case map_of nodes ident of
        None \<Rightarrow> None
      | Some node \<Rightarrow> map_of (inputSlots node) name)"

definition getInputs :: "StoredNodes \<Rightarrow> string \<Rightarrow> (string \<times> slot) list option" where
  "getInputs nodes ident =
     (case map_of nodes ident of
        None \<Rightarrow> None
      | Some node \<Rightarrow> Some (inputSlots node))"

text \<open>\<^verbatim>\<open>JSON.parse(JSON.stringify(x))\<close>: a property whose value is \<^verbatim>\<open>undefined\<close> is left out, an
  array is rebuilt as a new array object (with \<^verbatim>\<open>undefined\<close> elements turned into
  \<^verbatim>\<open>null\<close>), allocated at the end of the store.\<close>

definition jsonElement :: "primitive \<Rightarrow> primitive" where
  "jsonElement p = (if p = PUndefined then PNull else p)"

fun cloneSlots :: "heap \<Rightarrow> (string \<times> slot) list \<Rightarrow> heap \<times> (string \<times> slot) list" where
  "cloneSlots h [] = (h, [])"
| "cloneSlots h ((k, Prim p) # rest) =
     (if p = PUndefined then cloneSlots h rest
      else (fst (cloneSlots h rest), (k, Prim p) # snd (cloneSlots h rest)))"
| "cloneSlots h ((k, ArrayRef a) # rest) =
     (fst (cloneSlots (h @ [map jsonElement (h ! a)]) rest),
      (k, ArrayRef (length h)) # snd (cloneSlots (h @ [map jsonElement (h ! a)]) rest))"

definition cloneNode :: "heap \<Rightarrow> StoredNode \<Rightarrow> heap \<times> StoredNode" where
  "cloneNode h node =
     (fst (cloneSlots h (inputSlots node)),
      node\<lparr>inputSlots := snd (cloneSlots h (inputSlots node))\<rparr>)"

text \<open>\<^verbatim>\<open>getNode\<close> returns \<^verbatim>\<open>undefined\<close> or the clone of the stored node; the store grows by the
  arrays of the clone.\<close>

definition getNode :: "heap \<Rightarrow> StoredNodes \<Rightarrow> string \<Rightarrow> heap \<times> StoredNode option" where
  "getNode h nodes ident =
     (case map_of nodes ident of
        None \<Rightarrow> (h, None)
      | Some node \<Rightarrow> (fst (cloneNode h node), Some (snd (cloneNode h node))))"

fun cloneNodes :: "heap \<Rightarrow> StoredNodes \<Rightarrow> heap \<times> StoredNodes" where
  "cloneNodes h [] = (h, [])"
| "cloneNodes h ((ident, node) # rest) =
     (fst (cloneNodes (fst (cloneNode h node)) rest),
      (ident, snd (cloneNode h node)) # snd (cloneNodes (fst (cloneNode h node)) rest))"

definition getNodes :: "heap \<Rightarrow> StoredNodes \<Rightarrow> heap \<times> StoredNodes" where
  "getNodes h nodes = cloneNodes h nodes"

definition findNodesByType :: "heap \<Rightarrow> StoredNodes \<Rightarrow> string \<Rightarrow> heap \<times> StoredNodes" where
  "findNodesByType h nodes classType' =
     cloneNodes h (filter (\<lambda>(ident, node). classTag node = classType') nodes)"

text \<open>What a caller can do to an array it holds: the assignment \<^verbatim>\<open>arr[i] = v\<close>. Past the
  end the array is extended, the gap reading as \<^verbatim>\<open>undefined\<close>.\<close>

definition arrayAssign :: "heap \<Rightarrow> nat \<Rightarrow> nat \<Rightarrow> primitive \<Rightarrow> heap" where
  "arrayAssign h a i v =
     h[a := (if i < length (h ! a) then (h ! a)[i := v]
             else h ! a @ replicate (i - length (h ! a)) PUndefined @ [v])]"

text \<open>The state of the graph as a reader sees it: every property with the contents of the
  array it refers to.\<close>

datatype contents = Scalar primitive | Array "primitive list"

definition readSlot :: "heap \<Rightarrow> slot \<Rightarrow> contents" where
  "readSlot h s = (case s of Prim p \<Rightarrow> Scalar p | ArrayRef a \<Rightarrow> Array (h ! a))"

definition storedState :: "heap \<Rightarrow> StoredNodes \<Rightarrow> (string \<times> string \<times> (string \<times> contents) list) list" where
  "storedState h nodes =
     map (\<lambda>(ident, node).
       (ident, classTag node, map (\<lambda>(k, s). (k, readSlot h s)) (inputSlots node))) nodes"

text \<open>The arrays a stored graph refers to are allocated.\<close>

definition slotAllocated :: "heap \<Rightarrow> slot \<Rightarrow> bool" where
  "slotAllocated h s = (case s of Prim p \<Rightarrow> True | ArrayRef a \<Rightarrow> a < length h)"

definition allocated :: "heap \<Rightarrow> StoredNodes \<Rightarrow> bool" where
  "allocated h nodes =
     list_all (\<lambda>e. list_all (\<lambda>kv. slotAllocated h (snd kv)) (inputSlots (snd e))) nodes"

text \<open>The store and node map of the workflow \<open>VAELoader(1) \<rightarrow> VAEEncode(2)\<close>.\<close>

definition sampleHeap :: heap where
  "sampleHeap = [[PString ''1'', PNumber 0]]"

definition sampleStored :: StoredNodes where
  "sampleStored =
     [(''1'', \<lparr>inputSlots = [], classTag = ''VAELoader'', storedMeta = None\<rparr>),
      (''2'', \<lparr>inputSlots = [(''vae'', ArrayRef 0)], classTag = ''VAEEncode'', storedMeta = None\<rparr>)]"

section \<open>Auxiliary facts\<close>

subsection \<open>Sets and key order\<close>

lemma foldl_Set_add_set: "set (foldl Set_add acc xs) = set acc \<union> set xs"
  by (induction xs arbitrary: acc) (auto simp: Set_add_def)

lemma foldl_Set_add_distinct: "distinct acc \<Longrightarrow> distinct (foldl Set_add acc xs)"
  by (induction xs arbitrary: acc) (auto simp: Set_add_def)

lemma set_new_Set: "set (new_Set xs) = set xs"
  by (simp add: new_Set_def foldl_Set_add_set)

lemma distinct_new_Set: "distinct (new_Set xs)"
  by (simp add: new_Set_def foldl_Set_add_distinct)

lemma mset_Object_keys: "mset (Object_keys ks) = mset ks"
  by (simp add: Object_keys_def)

lemma set_Object_keys: "set (Object_keys ks) = set ks"
  by (auto simp: Object_keys_def)

lemma distinct_Object_keys: "distinct (Object_keys ks) = distinct ks"
  by (rule mset_eq_imp_distinct_iff[OF mset_Object_keys])

subsection \<open>Property reads\<close>

lemma getProperty_Value: "getProperty obj k = Value v \<longleftrightarrow> map_of obj k = Some v"
  by (simp add: getProperty_def split: option.splits)

lemma getProperty_Undefined:
  "getProperty obj k = Undefined \<longleftrightarrow> map_of obj k = None \<and> k \<notin> set objectPrototypeKeys"
  by (simp add: getProperty_def split: option.splits)

lemma getProperty_Inherited:
  "getProperty obj k = Inherited k' \<longleftrightarrow>
     map_of obj k = None \<and> k \<in> set objectPrototypeKeys \<and> k' = k"
  by (auto simp: getProperty_def split: option.splits)

lemma getProperty_eq_map_of:
  "getProperty obj k = getProperty obj' k \<Longrightarrow> map_of obj k = map_of obj' k"
  by (auto simp: getProperty_def split: option.splits if_splits)

lemma error_TypeError: "(err :: error) = TypeError"
  by (cases err) simp

subsection \<open>Grouping by class tag\<close>

lemma groupPush_Inr:
  assumes "groupPush g e = Inr g'"
  shows "groupOf g' ct =
     (if ct = class_type (snd e) then groupOf g ct @ [e] else groupOf g ct)"
    and "fst ` set g' = insert (class_type (snd e)) (fst ` set g)"
proof -
  have upd: "map_of (map (\<lambda>(c, xs). if c = k then (c, xs @ [e]) else (c, xs)) g) ct =
          (if ct = k then map_option (\<lambda>xs. xs @ [e]) (map_of g ct) else map_of g ct)" for k
    by (induction g) auto
  have keys: "fst ` set (map (\<lambda>(c, xs). if c = k then (c, xs @ [e]) else (c, xs)) g) = fst ` set g" for k
    by (induction g) auto
  show "groupOf g' ct =
     (if ct = class_type (snd e) then groupOf g ct @ [e] else groupOf g ct)"
  proof (cases "map_of g (class_type (snd e))")
    case None
    then show ?thesis using assms
      by (auto simp: groupOf_def groupPush_def getProperty_def map_add_def
            split: option.splits if_splits)
  next
    case (Some es)
    then show ?thesis using assms upd
      by (auto simp: groupOf_def groupPush_def getProperty_def split: option.splits)
  qed
  show "fst ` set g' = insert (class_type (snd e)) (fst ` set g)"
  proof (cases "map_of g (class_type (snd e))")
    case None
    then show ?thesis using assms
      by (auto simp: groupPush_def getProperty_def split: if_splits)
  next
    case (Some es)
    then have "(class_type (snd e), es) \<in> set g"
      by (rule map_of_SomeD)
    then have mem: "class_type (snd e) \<in> fst ` set g"
      by force
    have g': "g' = map (\<lambda>(c, xs). if c = class_type (snd e) then (c, xs @ [e]) else (c, xs)) g"
      using Some assms by (simp add: groupPush_def getProperty_def)
    show ?thesis
      unfolding g' keys using mem by blast
  qed
qed

lemma groupPush_Inl:
  "groupPush g e = Inl err \<longleftrightarrow>
     class_type (snd e) \<notin> fst ` set g \<and> class_type (snd e) \<in> set objectPrototypeKeys"
proof (cases "map_of g (class_type (snd e))")
  case None
  then have "class_type (snd e) \<notin> fst ` set g"
    by (simp add: map_of_eq_None_iff)
  then show ?thesis
    using None error_TypeError[of err] by (simp add: groupPush_def getProperty_def)
next
  case (Some es)
  then have "(class_type (snd e), es) \<in> set g"
    by (rule map_of_SomeD)
  then have "class_type (snd e) \<in> fst ` set g"
    by force
  then show ?thesis
    using Some by (simp add: groupPush_def getProperty_def)
qed

lemma groupLoop_Inr:
  "groupLoop g xs = Inr g' \<Longrightarrow>
     groupOf g' ct = groupOf g ct @ filter (\<lambda>e. class_type (snd e) = ct) xs
     \<and> fst ` set g' = fst ` set g \<union> (class_type \<circ> snd) ` set xs"
proof (induction xs arbitrary: g)
  case Nil
  then show ?case by simp
next
  case (Cons e xs)
  then obtain g1 where g1: "groupPush g e = Inr g1" and rest: "groupLoop g1 xs = Inr g'"
    by (auto split: sum.splits)
  from Cons.IH[OF rest] groupPush_Inr(1)[OF g1, of ct] groupPush_Inr(2)[OF g1] show ?case
    by auto
qed

lemma groupLoop_Inl:
  assumes "fst ` set g \<inter> set objectPrototypeKeys = {}"
  shows "groupLoop g xs = Inl err \<longleftrightarrow>
     (\<exists>e \<in> set xs. class_type (snd e) \<in> set objectPrototypeKeys)"
  using assms
proof (induction xs arbitrary: g)
  case Nil
  then show ?case by simp
next
  case (Cons e xs)
  show ?case
  proof (cases "groupPush g e")
    case (Inl err')
    then have "class_type (snd e) \<in> set objectPrototypeKeys"
      by (simp add: groupPush_Inl)
    then show ?thesis using Inl error_TypeError[of err] error_TypeError[of err'] by simp
  next
    case (Inr g1)
    have notp: "class_type (snd e) \<notin> set objectPrototypeKeys"
    proof
      assume p: "class_type (snd e) \<in> set objectPrototypeKeys"
      then have "class_type (snd e) \<notin> fst ` set g" using Cons.prems by blast
      then have "groupPush g e = Inl TypeError" using p by (simp add: groupPush_Inl)
      then show False using Inr by simp
    qed
    have "fst ` set g1 \<inter> set objectPrototypeKeys = {}"
      using groupPush_Inr(2)[OF Inr] Cons.prems notp by auto
    from Cons.IH[OF this] show ?thesis using Inr notp by simp
  qed
qed

lemma groupNodesByType_Inl:
  "groupNodesByType G = Inl err \<longleftrightarrow>
     (\<exists>e \<in> set G. class_type (snd e) \<in> set objectPrototypeKeys)"
  unfolding groupNodesByType_def by (rule groupLoop_Inl) simp

lemma groupNodesByType_Inr:
  assumes "groupNodesByType G = Inr g"
  shows "groupOf g ct = nodesOfClass G ct"
    and "set (map fst g) = (class_type \<circ> snd) ` set G"
  using groupLoop_Inr[OF assms[unfolded groupNodesByType_def], of ct]
  by (simp_all add: groupOf_def nodesOfClass_def)

lemma groupNodesByType_cases:
  obtains (throws) "\<exists>e \<in> set G. class_type (snd e) \<in> set objectPrototypeKeys"
      "groupNodesByType G = Inl TypeError"
    | (returns) g where "\<forall>e \<in> set G. class_type (snd e) \<notin> set objectPrototypeKeys"
      "groupNodesByType G = Inr g"
proof (cases "groupNodesByType G")
  case (Inl err)
  then show ?thesis
    using throws groupNodesByType_Inl[of G err] error_TypeError[of err] by simp
next
  case (Inr g)
  have "\<forall>e \<in> set G. class_type (snd e) \<notin> set objectPrototypeKeys"
  proof (rule ccontr)
    assume "\<not> (\<forall>e \<in> set G. class_type (snd e) \<notin> set objectPrototypeKeys)"
    then have "groupNodesByType G = Inl TypeError"
      by (simp add: groupNodesByType_Inl)
    then show False using Inr by simp
  qed
  then show ?thesis using returns Inr by blast
qed

subsection \<open>The matching loop and multisets of hashes\<close>

lemma add_mset_diff_notin: "x \<notin># M \<Longrightarrow> add_mset x N - M = add_mset x (N - M)"
  by (rule diff_add_mset_swap)

lemma diff_add_mset_notin: "x \<notin># M \<Longrightarrow> M - add_mset x N = M - N"
  by (auto simp: multiset_eq_iff not_in_iff)

lemma add_mset_diff_in: "x \<in># M \<Longrightarrow> add_mset x N - M = N - (M - {#x#})"
proof -
  assume "x \<in># M"
  then obtain M' where "M = add_mset x M'" by (meson multi_member_split)
  then show ?thesis by simp
qed

lemma matchLoop_mset:
  assumes "matchLoop th oh is (ut, uo) = (ut', uo')"
  shows "mset (map ((!) oh) uo') = mset (map ((!) oh) uo) - mset (map ((!) th) is)
       \<and> (\<exists>us. ut' = ut @ us \<and> set us \<subseteq> set is \<and> set uo' \<subseteq> set uo
             \<and> mset (map ((!) th) us) = mset (map ((!) th) is) - mset (map ((!) oh) uo))"
  using assms
proof (induction "is" arbitrary: ut uo)
  case Nil
  then show ?case by simp
next
  case (Cons i rest)
  show ?case
  proof (cases "find (\<lambda>j. th ! i = oh ! j) uo")
    case None
    then have notin: "th ! i \<notin># mset (map ((!) oh) uo)"
      by (auto simp: find_None_iff)
    from None Cons.prems have "matchLoop th oh rest (ut @ [i], uo) = (ut', uo')" by simp
    from Cons.IH[OF this] obtain us where
      a: "mset (map ((!) oh) uo') = mset (map ((!) oh) uo) - mset (map ((!) th) rest)"
      and b: "ut' = (ut @ [i]) @ us" "set us \<subseteq> set rest" "set uo' \<subseteq> set uo"
      and c: "mset (map ((!) th) us) = mset (map ((!) th) rest) - mset (map ((!) oh) uo)"
      by blast
    have "ut' = ut @ (i # us)" using b by simp
    moreover have "mset (map ((!) th) (i # us)) =
        mset (map ((!) th) (i # rest)) - mset (map ((!) oh) uo)"
      using c notin by (simp add: add_mset_diff_notin)
    moreover have "set (i # us) \<subseteq> set (i # rest)" using b by auto
    moreover have "mset (map ((!) oh) uo') = mset (map ((!) oh) uo) - mset (map ((!) th) (i # rest))"
      using a notin by (simp add: diff_add_mset_notin)
    ultimately show ?thesis using b(3) by blast
  next
    case (Some j)
    then have j: "j \<in> set uo" "th ! i = oh ! j"
      by (auto simp: find_Some_iff)
    from Some Cons.prems have "matchLoop th oh rest (ut, remove1 j uo) = (ut', uo')" by simp
    from Cons.IH[OF this] obtain us where
      a: "mset (map ((!) oh) uo') = mset (map ((!) oh) (remove1 j uo)) - mset (map ((!) th) rest)"
      and b: "ut' = ut @ us" "set us \<subseteq> set rest" "set uo' \<subseteq> set (remove1 j uo)"
      and c: "mset (map ((!) th) us) = mset (map ((!) th) rest) - mset (map ((!) oh) (remove1 j uo))"
      by blast
    have r: "mset (map ((!) oh) (remove1 j uo)) = mset (map ((!) oh) uo) - {#oh ! j#}"
      using j(1) by (induction uo) auto
    have "oh ! j \<in># mset (map ((!) oh) uo)" using j(1) by auto
    then have "mset (map ((!) th) us) = mset (map ((!) th) (i # rest)) - mset (map ((!) oh) uo)"
      using c r j(2) by (simp add: add_mset_diff_in)
    moreover have "mset (map ((!) oh) uo') = mset (map ((!) oh) uo) - mset (map ((!) th) (i # rest))"
      using a r j(2) by simp
    moreover have "set us \<subseteq> set (i # rest)" "set uo' \<subseteq> set uo"
      using b set_remove1_subset by fastforce+
    ultimately show ?thesis using b(1) by blast
  qed
qed

lemma matchLoop_all_matched:
  assumes "mset th = mset oh"
    and "matchLoop th oh [0..<length th] ([], [0..<length oh]) = (ut, uo)"
  shows "ut = []"
proof -
  from matchLoop_mset[OF assms(2)] obtain us where
    us: "ut = [] @ us"
      "mset (map ((!) th) us) = mset (map ((!) th) [0..<length th]) - mset (map ((!) oh) [0..<length oh])"
    by blast
  have "mset (map ((!) th) us) = {#}"
    using us(2) assms(1) by (simp add: map_nth)
  then show ?thesis using us(1) by simp
qed

lemma findBestNodeMatching_mset_eq:
  assumes "mset (map (\<lambda>n. hashNodeInputs A (snd n)) as) = mset (map (\<lambda>n. hashNodeInputs B (snd n)) bs)"
  shows "findBestNodeMatching A as bs B = []"
proof -
  obtain ut uo where m: "matchLoop (map (\<lambda>n. hashNodeInputs A (snd n)) as)
      (map (\<lambda>n. hashNodeInputs B (snd n)) bs) [0..<length as] ([], [0..<length bs]) = (ut, uo)"
    by fastforce
  have "ut = []"
    using matchLoop_all_matched[OF assms] m by simp
  then show ?thesis using m by (simp add: findBestNodeMatching_def)
qed

subsection \<open>The records of one class tag or input name\<close>

lemma filter_concat_tagged:
  assumes "distinct xs"
    and "\<And>x d. x \<in> set xs \<Longrightarrow> d \<in> set (f x) \<Longrightarrow> tag d = Some x"
  shows "filter (\<lambda>d. tag d = Some k) (concat (map f xs)) = (if k \<in> set xs then f k else [])"
  using assms
proof (induction xs)
  case Nil
  then show ?case by simp
next
  case (Cons x xs)
  have tagx: "\<And>d. d \<in> set (f x) \<Longrightarrow> tag d = Some x"
    using Cons.prems(2) by simp
  have IH: "filter (\<lambda>d. tag d = Some k) (concat (map f xs)) = (if k \<in> set xs then f k else [])"
    using Cons.IH Cons.prems by simp
  show ?case
  proof (cases "x = k")
    case True
    then have "filter (\<lambda>d. tag d = Some k) (f x) = f k"
      using tagx by (simp add: filter_id_conv)
    moreover have "k \<notin> set xs" using Cons.prems(1) True by simp
    ultimately show ?thesis using IH True by simp
  next
    case False
    then have "filter (\<lambda>d. tag d = Some k) (f x) = []"
      using tagx by (auto simp: filter_empty_conv)
    then show ?thesis using IH False by simp
  qed
qed

lemma compareInput_inputName:
  "d \<in> set (compareInput A a b B name) \<Longrightarrow> inputName d = Some name"
  by (auto simp: compareInput_def Let_def split: option.splits prod.splits if_splits)

lemma classDiff_classType:
  "d \<in> set (classDiff A B gA gB ct) \<Longrightarrow> classType d = Some ct"
  by (auto simp: classDiff_def Let_def split: if_splits)

lemma compareNodeInputs_filter:
  "filter (\<lambda>d. inputName d = Some name) (compareNodeInputs A a b B) =
     (if name \<in> fst ` set (inputs a) \<union> fst ` set (inputs b)
      then compareInput A a b B name else [])"
proof -
  have "filter (\<lambda>d. inputName d = Some name)
          (concat (map (compareInput A a b B) (new_Set (map fst (inputs a) @ map fst (inputs b))))) =
        (if name \<in> set (new_Set (map fst (inputs a) @ map fst (inputs b)))
         then compareInput A a b B name else [])"
    by (rule filter_concat_tagged) (simp_all add: distinct_new_Set compareInput_inputName)
  then show ?thesis
    by (simp add: compareNodeInputs_def set_new_Set)
qed

subsection \<open>The structural diff when both groupings return\<close>

lemma getStructuralDiff_Inr:
  assumes "groupNodesByType A = Inr gA" and "groupNodesByType B = Inr gB"
  shows "getStructuralDiff A B =
     Inr (concat (map (classDiff A B gA gB)
            (new_Set (Object_keys (map fst gA) @ Object_keys (map fst gB)))))"
  using assms by (simp add: getStructuralDiff_def Let_def)

lemma getStructuralDiff_Inl:
  "getStructuralDiff A B = Inl err \<longleftrightarrow>
     (\<exists>e \<in> set A \<union> set B. class_type (snd e) \<in> set objectPrototypeKeys)"
proof (cases A rule: groupNodesByType_cases)
  case throws
  then show ?thesis
    using error_TypeError[of err] by (auto simp: getStructuralDiff_def)
next
  case (returns gA)
  note A = this
  show ?thesis
  proof (cases B rule: groupNodesByType_cases)
    case throws
    then show ?thesis
      using A error_TypeError[of err] by (auto simp: getStructuralDiff_def)
  next
    case (returns gB)
    then show ?thesis
      using A by (auto simp: getStructuralDiff_def Let_def)
  qed
qed

lemma allClassTypes_set:
  assumes "groupNodesByType A = Inr gA" and "groupNodesByType B = Inr gB"
  shows "set (new_Set (Object_keys (map fst gA) @ Object_keys (map fst gB)))
     = (class_type \<circ> snd) ` set A \<union> (class_type \<circ> snd) ` set B"
  using groupNodesByType_Inr(2)[OF assms(1)] groupNodesByType_Inr(2)[OF assms(2)]
  by (simp add: set_new_Set set_Object_keys del: set_map)

lemma getStructuralDiff_filter:
  assumes "groupNodesByType A = Inr gA" and "groupNodesByType B = Inr gB"
    and "getStructuralDiff A B = Inr ds"
  shows "filter (\<lambda>d. classType d = Some ct) ds =
     (if ct \<in> (class_type \<circ> snd) ` set A \<union> (class_type \<circ> snd) ` set B
      then classDiff A B gA gB ct else [])"
proof -
  let ?cts = "new_Set (Object_keys (map fst gA) @ Object_keys (map fst gB))"
  have ds: "ds = concat (map (classDiff A B gA gB) ?cts)"
    using getStructuralDiff_Inr[OF assms(1,2)] assms(3) by simp
  have "filter (\<lambda>d. classType d = Some ct) (concat (map (classDiff A B gA gB) ?cts)) =
        (if ct \<in> set ?cts then classDiff A B gA gB ct else [])"
    by (rule filter_concat_tagged) (simp_all add: distinct_new_Set classDiff_classType)
  then show ?thesis
    unfolding ds allClassTypes_set[OF assms(1,2)] .
qed

lemma nodesOfClass_nonempty:
  "nodesOfClass A ct \<noteq> [] \<longleftrightarrow> ct \<in> (class_type \<circ> snd) ` set A"
  by (auto simp: nodesOfClass_def filter_empty_conv)

lemma getStructuralDiff_empty_iff:
  assumes "groupNodesByType A = Inr gA" and "groupNodesByType B = Inr gB"
  shows "getStructuralDiff A B = Inr [] \<longleftrightarrow>
     (\<forall>ct \<in> (class_type \<circ> snd) ` set A \<union> (class_type \<circ> snd) ` set B.
        classDiff A B gA gB ct = [])"
  unfolding getStructuralDiff_Inr[OF assms] sum.inject concat_eq_Nil_conv set_map
    allClassTypes_set[OF assms]
  by blast

subsection \<open>Node counts\<close>

lemma classDiff_count_mismatch:
  assumes "groupOf gA ct = nodesOfClass A ct" and "groupOf gB ct = nodesOfClass B ct"
    and "length (nodesOfClass A ct) \<noteq> length (nodesOfClass B ct)"
  shows "classDiff A B gA gB ct =
     [\<lparr>type = class_type_count_mismatch, classType = Some ct, inputName = None,
       expected = Value (VNumber (Num (int (length (nodesOfClass B ct))))),
       actual = Value (VNumber (Num (int (length (nodesOfClass A ct))))),
       details = ct @ '': expected '' @ showNumber (Num (int (length (nodesOfClass B ct))))
                  @ '' nodes, got '' @ showNumber (Num (int (length (nodesOfClass A ct))))\<rparr>]"
  using assms by (simp add: classDiff_def Let_def)

lemma count_mismatch_filter:
  assumes "getStructuralDiff A B = Inr ds"
    and "length (nodesOfClass A ct) \<noteq> length (nodesOfClass B ct)"
  shows "filter (\<lambda>d. classType d = Some ct) ds =
     [\<lparr>type = class_type_count_mismatch, classType = Some ct, inputName = None,
       expected = Value (VNumber (Num (int (length (nodesOfClass B ct))))),
       actual = Value (VNumber (Num (int (length (nodesOfClass A ct))))),
       details = ct @ '': expected '' @ showNumber (Num (int (length (nodesOfClass B ct))))
                  @ '' nodes, got '' @ showNumber (Num (int (length (nodesOfClass A ct))))\<rparr>]"
proof -
  from assms(1) obtain gA gB where g: "groupNodesByType A = Inr gA" "groupNodesByType B = Inr gB"
    by (auto simp: getStructuralDiff_def split: sum.splits)
  have "nodesOfClass A ct \<noteq> [] \<or> nodesOfClass B ct \<noteq> []"
    using assms(2) by auto
  then have "ct \<in> (class_type \<circ> snd) ` set A \<union> (class_type \<circ> snd) ` set B"
    by (simp only: nodesOfClass_nonempty Un_iff)
  then show ?thesis
    by (simp only: getStructuralDiff_filter[OF g assms(1)] if_True
          classDiff_count_mismatch[OF groupNodesByType_Inr(1)[OF g(1)]
            groupNodesByType_Inr(1)[OF g(2)] assms(2)])
qed

subsection \<open>Connections on both sides\<close>

lemma compareInput_connections:
  assumes "map_of (inputs a) name = Some (VConnection tid tport)"
    and "map_of (inputs b) name = Some (VConnection oid oport)"
  shows "compareInput A a b B name =
     (if normalizeConnection A tid tport \<noteq> normalizeConnection B oid oport
      then [\<lparr>type = connection_mismatch, classType = None, inputName = Some name,
             expected = Value (VString (normalizeConnection B oid oport)),
             actual = Value (VString (normalizeConnection A tid tport)),
             details = inputNamePrefix name @ ''connection mismatch - expected ''
               @ normalizeConnection B oid oport @ '', got '' @ normalizeConnection A tid tport\<rparr>]
      else [])"
  using assms by (simp add: compareInput_def Let_def getProperty_def)

lemma map_of_Some_key: "map_of xs k = Some v \<Longrightarrow> k \<in> fst ` set xs"
  by (metis map_of_eq_None_iff option.distinct(1))

subsection \<open>Property lists and node removal\<close>

lemma map_of_filter_values:
  "distinct (map fst xs) \<Longrightarrow>
   map_of (filter (\<lambda>(k, v). P v) xs) k =
     (case map_of xs k of None \<Rightarrow> None | Some v \<Rightarrow> if P v then Some v else None)"
proof (induction xs)
  case Nil
  then show ?case by simp
next
  case (Cons x xs)
  obtain k' v' where x: "x = (k', v')" by (cases x)
  have IH: "map_of (filter (\<lambda>(k, v). P v) xs) k =
     (case map_of xs k of None \<Rightarrow> None | Some v \<Rightarrow> if P v then Some v else None)"
    using Cons by simp
  have notin: "k' \<notin> fst ` set xs" using Cons.prems x by simp
  then have none: "map_of xs k' = None" by (simp add: map_of_eq_None_iff)
  show ?case
    using IH none x by (auto split: option.splits)
qed

lemma map_of_filter_keys:
  "map_of (filter (\<lambda>(k, v). k \<noteq> i) xs) j = (if j = i then None else map_of xs j)"
  by (induction xs) auto

lemma map_of_map_values:
  "map_of (map (\<lambda>(k, v). (k, f v)) xs) j = map_option f (map_of xs j)"
  by (induction xs) auto

lemma wf_workflow_inputs:
  "wf_workflow G \<Longrightarrow> map_of G j = Some n \<Longrightarrow> distinct (map fst (inputs n))"
  by (auto simp: wf_workflow_def list_all_iff dest!: map_of_SomeD)

lemma inputs_detachInputs:
  "distinct (map fst (inputs n)) \<Longrightarrow>
   map_of (inputs (detachInputs i n)) k =
     (case map_of (inputs n) k of None \<Rightarrow> None
      | Some v \<Rightarrow> if isConnectionFrom i v then None else Some v)"
  by (simp add: detachInputs_def map_of_filter_values split: option.splits)

subsection \<open>Referenced node ids\<close>

lemma set_concat_entries:
  "x \<in> set (concat (map (\<lambda>(ident, node). F ident node) G))
     \<longleftrightarrow> (\<exists>e \<in> set G. x \<in> set (F (fst e) (snd e)))"
  by (induction G) auto

lemma referenced_value:
  "x \<in> set (case v of VConnection s p \<Rightarrow> [s, ident] | _ \<Rightarrow> [])
     \<longleftrightarrow> isConnectionFrom x v \<or> (x = ident \<and> isConnection v)"
  by (cases v) (auto simp: isConnectionFrom_def isConnection_def)

lemma set_referencedNodeIds:
  "x \<in> set (referencedNodeIds G) \<longleftrightarrow>
     (\<exists>e \<in> set G. \<exists>kv \<in> set (inputs (snd e)). isConnectionFrom x (snd kv))
     \<or> (\<exists>e \<in> set G. fst e = x \<and> (\<exists>kv \<in> set (inputs (snd e)). isConnection (snd kv)))"
  unfolding referencedNodeIds_def set_new_Set set_concat_entries referenced_value
  by blast

lemma occursAsSource_iff:
  "occursAsSource G i \<longleftrightarrow> (\<exists>e \<in> set G. \<exists>kv \<in> set (inputs (snd e)). isConnectionFrom i (snd kv))"
  by (simp add: occursAsSource_def list_ex_iff)

lemma hasConnectionInput_iff:
  assumes "distinct (map fst G)"
  shows "hasConnectionInput G i \<longleftrightarrow>
     (\<exists>e \<in> set G. fst e = i \<and> (\<exists>kv \<in> set (inputs (snd e)). isConnection (snd kv)))"
proof
  assume "hasConnectionInput G i"
  then obtain n where n: "map_of G i = Some n" "\<exists>kv \<in> set (inputs n). isConnection (snd kv)"
    by (auto simp: hasConnectionInput_def list_ex_iff split: option.splits)
  from n(1) have "(i, n) \<in> set G" by (rule map_of_SomeD)
  with n(2) show "\<exists>e \<in> set G. fst e = i \<and> (\<exists>kv \<in> set (inputs (snd e)). isConnection (snd kv))"
    by force
next
  assume "\<exists>e \<in> set G. fst e = i \<and> (\<exists>kv \<in> set (inputs (snd e)). isConnection (snd kv))"
  then obtain n where n: "(i, n) \<in> set G" "\<exists>kv \<in> set (inputs n). isConnection (snd kv)"
    by force
  from n(1) assms have "map_of G i = Some n" by simp
  with n(2) show "hasConnectionInput G i"
    by (simp add: hasConnectionInput_def list_ex_iff)
qed

lemma isolationWarnings_filter:
  "filter (\<lambda>w. nodeId w = Some i) (isolationWarnings G) =
     (if i \<in> fst ` set G \<and> i \<notin> set (referencedNodeIds G)
      then [\<lparr>nodeId = Some i, ValidationError.inputName = None,
             message = ''Node '' @ quoted i @ '' is isolated (no incoming or outgoing connections)'',
             severity = SeverityWarning\<rparr>]
      else [])"
proof -
  let ?f = "\<lambda>ident. if ident \<notin> set (referencedNodeIds G)
        then [\<lparr>nodeId = Some ident, ValidationError.inputName = None,
               message = ''Node '' @ quoted ident
                 @ '' is isolated (no incoming or outgoing connections)'',
               severity = SeverityWarning\<rparr>]
        else []"
  have "filter (\<lambda>w. nodeId w = Some i) (concat (map ?f (new_Set (map fst G)))) =
      (if i \<in> set (new_Set (map fst G)) then ?f i else [])"
    by (rule filter_concat_tagged) (auto simp: distinct_new_Set split: if_splits)
  then show ?thesis
    by (simp add: isolationWarnings_def set_new_Set)
qed

subsection \<open>The index loop and the greedy pairing\<close>

lemma find_map_None:
  "find (\<lambda>j. Q (f j)) xs = None \<Longrightarrow> find Q (map f xs) = None"
  by (induction xs) (auto split: if_splits)

lemma find_map_Some:
  "find (\<lambda>j. Q (f j)) xs = Some j \<Longrightarrow>
     find Q (map f xs) = Some (f j) \<and> remove1 (f j) (map f xs) = map f (remove1 j xs)"
proof (induction xs)
  case Nil
  then show ?case by simp
next
  case (Cons x xs)
  show ?case
  proof (cases "Q (f x)")
    case True
    then show ?thesis using Cons.prems by simp
  next
    case False
    then have rest: "find (\<lambda>j. Q (f j)) xs = Some j" using Cons.prems by simp
    then have "Q (f j)" by (auto simp: find_Some_iff)
    then have "f x \<noteq> f j" "x \<noteq> j" using False by auto
    then show ?thesis using Cons.IH[OF rest] False by simp
  qed
qed

lemma matchLoop_greedyPairing:
  assumes "set is \<subseteq> {..<length as}" and "set uo \<subseteq> {..<length bs}"
  shows "\<exists>us uo'. matchLoop (map hashA as) (map hashB bs) is (ut, uo) = (ut @ us, uo')
           \<and> greedyPairing hashA hashB (map ((!) as) is) (map ((!) bs) uo)
               = (map ((!) as) us, map ((!) bs) uo')"
  using assms
proof (induction "is" arbitrary: ut uo)
  case Nil
  then show ?case by simp
next
  case (Cons i rest)
  have i: "i < length as" and rest: "set rest \<subseteq> {..<length as}"
    using Cons.prems(1) by auto
  have eq: "find (\<lambda>j. map hashA as ! i = map hashB bs ! j) uo =
            find (\<lambda>j. hashB (bs ! j) = hashA (as ! i)) uo"
    using Cons.prems(2) i by (intro find_cong) auto
  show ?case
  proof (cases "find (\<lambda>j. hashB (bs ! j) = hashA (as ! i)) uo")
    case None
    from Cons.IH[OF rest Cons.prems(2), of "ut @ [i]"] obtain us uo' where
      m: "matchLoop (map hashA as) (map hashB bs) rest (ut @ [i], uo) = ((ut @ [i]) @ us, uo')"
      and g: "greedyPairing hashA hashB (map ((!) as) rest) (map ((!) bs) uo)
               = (map ((!) as) us, map ((!) bs) uo')"
      by blast
    have "find (\<lambda>b. hashB b = hashA (as ! i)) (map ((!) bs) uo) = None"
      using find_map_None[of "\<lambda>b. hashB b = hashA (as ! i)" "(!) bs" uo] None by simp
    then have "greedyPairing hashA hashB (map ((!) as) (i # rest)) (map ((!) bs) uo)
               = (map ((!) as) (i # us), map ((!) bs) uo')"
      using g by simp
    moreover have "matchLoop (map hashA as) (map hashB bs) (i # rest) (ut, uo) = (ut @ (i # us), uo')"
      using m None eq by simp
    ultimately show ?thesis by blast
  next
    case (Some j)
    then have "j \<in> set uo" by (auto simp: find_Some_iff)
    then have uo2: "set (remove1 j uo) \<subseteq> {..<length bs}"
      using Cons.prems(2) set_remove1_subset by fastforce
    from Cons.IH[OF rest uo2, of ut] obtain us uo' where
      m: "matchLoop (map hashA as) (map hashB bs) rest (ut, remove1 j uo) = (ut @ us, uo')"
      and g: "greedyPairing hashA hashB (map ((!) as) rest) (map ((!) bs) (remove1 j uo))
               = (map ((!) as) us, map ((!) bs) uo')"
      by blast
    have f: "find (\<lambda>b. hashB b = hashA (as ! i)) (map ((!) bs) uo) = Some (bs ! j)"
      and r: "remove1 (bs ! j) (map ((!) bs) uo) = map ((!) bs) (remove1 j uo)"
      using find_map_Some[of "\<lambda>b. hashB b = hashA (as ! i)" "(!) bs" uo j] Some by simp_all
    have "greedyPairing hashA hashB (map ((!) as) (i # rest)) (map ((!) bs) uo)
               = (map ((!) as) us, map ((!) bs) uo')"
      using g f r by simp
    moreover have "matchLoop (map hashA as) (map hashB bs) (i # rest) (ut, uo) = (ut @ us, uo')"
      using m Some eq by simp
    ultimately show ?thesis by blast
  qed
qed

lemma findBestNodeMatching_spec:
  "findBestNodeMatching A as bs B = specMultiNodeDiff A as bs B"
proof -
  let ?ha = "\<lambda>n. hashNodeInputs A (snd n)" and ?hb = "\<lambda>n. hashNodeInputs B (snd n)"
  have s1: "set [0..<length as] \<subseteq> {..<length as}" and s2: "set [0..<length bs] \<subseteq> {..<length bs}"
    by auto
  from matchLoop_greedyPairing[OF s1 s2, of ?ha ?hb "[]"]
  obtain us uo' where
    m0: "matchLoop (map ?ha as) (map ?hb bs) [0..<length as] ([], [0..<length bs]) = ([] @ us, uo')"
    and g0: "greedyPairing ?ha ?hb (map ((!) as) [0..<length as]) (map ((!) bs) [0..<length bs])
            = (map ((!) as) us, map ((!) bs) uo')"
    by blast
  have m: "matchLoop (map ?ha as) (map ?hb bs) [0..<length as] ([], [0..<length bs]) = (us, uo')"
    using m0 by simp
  have g: "greedyPairing ?ha ?hb as bs = (map ((!) as) us, map ((!) bs) uo')"
    using g0 by (simp add: map_nth)
  show ?thesis
    using m g
    by (cases us; cases uo') (simp_all add: findBestNodeMatching_def specMultiNodeDiff_def)
qed

lemma classDiff_multi:
  assumes "groupOf gA ct = nodesOfClass A ct" and "groupOf gB ct = nodesOfClass B ct"
    and "length (nodesOfClass A ct) = length (nodesOfClass B ct)"
    and "1 < length (nodesOfClass A ct)"
  shows "classDiff A B gA gB ct =
     map (\<lambda>d. d\<lparr>classType := Some ct\<rparr>)
       (findBestNodeMatching A (nodesOfClass A ct) (nodesOfClass B ct) B)"
  using assms by (simp add: classDiff_def Let_def)

subsection \<open>Symmetry of the comparison\<close>

lemma strictEquals_sym: "strictEquals x y = strictEquals y x"
  by (auto simp: strictEquals_def)

lemma compareInput_sym:
  "compareInput A a b B name = [] \<longleftrightarrow> compareInput B b a A name = []"
  by (cases "getProperty (inputs a) name" rule: asNodeConnection.cases;
      cases "getProperty (inputs b) name" rule: asNodeConnection.cases)
     (auto simp: compareInput_def Let_def strictEquals_def)

lemma compareNodeInputs_empty_iff:
  "compareNodeInputs A a b B = [] \<longleftrightarrow>
     (\<forall>name \<in> fst ` set (inputs a) \<union> fst ` set (inputs b). compareInput A a b B name = [])"
  by (simp add: compareNodeInputs_def set_new_Set)

lemma compareNodeInputs_sym:
  "compareNodeInputs A a b B = [] \<longleftrightarrow> compareNodeInputs B b a A = []"
  unfolding compareNodeInputs_empty_iff using compareInput_sym by blast

lemma compareInput_empty_cases:
  assumes "compareInput A a b B name = []"
  shows "(\<exists>s p s' p'. map_of (inputs a) name = Some (VConnection s p)
            \<and> map_of (inputs b) name = Some (VConnection s' p')
            \<and> normalizeConnection A s p = normalizeConnection B s' p')
       \<or> (\<not> isNodeConnection (getProperty (inputs a) name)
            \<and> map_of (inputs a) name = map_of (inputs b) name)"
proof -
  have "(\<exists>s p s' p'. getProperty (inputs a) name = Value (VConnection s p)
            \<and> getProperty (inputs b) name = Value (VConnection s' p')
            \<and> normalizeConnection A s p = normalizeConnection B s' p')
       \<or> (\<not> isNodeConnection (getProperty (inputs a) name)
            \<and> getProperty (inputs a) name = getProperty (inputs b) name)"
    using assms
    by (cases "getProperty (inputs a) name" rule: asNodeConnection.cases;
        cases "getProperty (inputs b) name" rule: asNodeConnection.cases)
       (simp_all add: compareInput_def Let_def strictEquals_def split: if_splits)
  then show ?thesis
    using getProperty_eq_map_of[of "inputs a" name "inputs b"]
    by (auto simp: getProperty_Value)
qed

lemma compareInput_empty_encode:
  assumes "compareInput A a b B name = []"
  shows "map_option (encodeInput A) (map_of (inputs a) name) =
         map_option (encodeInput B) (map_of (inputs b) name)"
  using compareInput_empty_cases[OF assms]
proof (elim disjE exE conjE)
  fix s p s' p'
  assume "map_of (inputs a) name = Some (VConnection s p)"
    "map_of (inputs b) name = Some (VConnection s' p')"
    "normalizeConnection A s p = normalizeConnection B s' p'"
  then show ?thesis by (simp add: encodeInput_def)
next
  assume nc: "\<not> isNodeConnection (getProperty (inputs a) name)"
    and eq: "map_of (inputs a) name = map_of (inputs b) name"
  show ?thesis
  proof (cases "map_of (inputs a) name")
    case None
    then show ?thesis using eq by simp
  next
    case (Some v)
    then have "encodeInput A v = encodeInput B v"
      using nc by (cases v) (simp_all add: encodeInput_def getProperty_def)
    then show ?thesis using Some eq by simp
  qed
qed

lemma sort_Object_keys_cong:
  assumes "distinct ks" and "distinct ks'" and "set ks = set ks'"
  shows "sort (Object_keys ks) = sort (Object_keys ks')"
proof -
  have "mset ks = mset ks'"
    using assms by (simp add: set_eq_iff_mset_eq_distinct)
  then have "mset (sort (Object_keys ks')) = mset (Object_keys ks)"
    by (simp add: mset_Object_keys)
  then show ?thesis
    by (rule properties_for_sort) simp
qed

lemma compareNodeInputs_empty_hash:
  assumes da: "distinct (map fst (inputs a))" and db: "distinct (map fst (inputs b))"
    and c: "compareNodeInputs A a b B = []"
  shows "hashNodeInputs A a = hashNodeInputs B b"
proof -
  have E: "map_option (encodeInput A) (map_of (inputs a) name) =
           map_option (encodeInput B) (map_of (inputs b) name)"
    if "name \<in> fst ` set (inputs a) \<union> fst ` set (inputs b)" for name
    using c that compareInput_empty_encode unfolding compareNodeInputs_empty_iff by blast
  have keys: "fst ` set (inputs a) = fst ` set (inputs b)"
  proof (intro set_eqI iffI)
    fix k assume k: "k \<in> fst ` set (inputs a)"
    then have "map_of (inputs a) k \<noteq> None" by (simp add: map_of_eq_None_iff)
    then have "map_of (inputs b) k \<noteq> None"
      using E[of k] k by (cases "map_of (inputs b) k") auto
    then show "k \<in> fst ` set (inputs b)" by (simp add: map_of_eq_None_iff)
  next
    fix k assume k: "k \<in> fst ` set (inputs b)"
    then have "map_of (inputs b) k \<noteq> None" by (simp add: map_of_eq_None_iff)
    then have "map_of (inputs a) k \<noteq> None"
      using E[of k] k by (cases "map_of (inputs a) k") auto
    then show "k \<in> fst ` set (inputs a)" by (simp add: map_of_eq_None_iff)
  qed
  let ?fa = "filter (\<lambda>(key, v). key \<noteq> ''__proto__'') (inputs a)"
  let ?fb = "filter (\<lambda>(key, v). key \<noteq> ''__proto__'') (inputs b)"
  let ?na = "map (\<lambda>(key, v). (key, encodeInput A v)) ?fa"
  let ?nb = "map (\<lambda>(key, v). (key, encodeInput B v)) ?fb"
  have fk: "map fst (filter (\<lambda>(key, v). key \<noteq> ''__proto__'') xs) =
      filter (\<lambda>key. key \<noteq> ''__proto__'') (map fst xs)" for xs :: "(string \<times> InputValue) list"
    by (induction xs) auto
  have ka: "map fst ?na = filter (\<lambda>key. key \<noteq> ''__proto__'') (map fst (inputs a))"
    and kb: "map fst ?nb = filter (\<lambda>key. key \<noteq> ''__proto__'') (map fst (inputs b))"
    using fk[of "inputs a"] fk[of "inputs b"] by (simp_all add: case_prod_beta comp_def)
  have sk: "sort (Object_keys (map fst ?na)) = sort (Object_keys (map fst ?nb))"
    unfolding ka kb using da db keys by (intro sort_Object_keys_cong) auto
  have look: "map_of ?na k = map_of ?nb k" if "k \<in> set (sort (Object_keys (map fst ?nb)))" for k
  proof -
    have "k \<in> fst ` set (inputs b)"
      using that unfolding kb by (simp add: set_Object_keys)
    then show ?thesis
      using E[of k] by (simp add: map_of_map_values map_of_filter_keys)
  qed
  have m: "map (\<lambda>k. k @ '':'' @ (case map_of ?na k of Some s \<Rightarrow> s | None \<Rightarrow> ''undefined''))
          (sort (Object_keys (map fst ?nb))) =
        map (\<lambda>k. k @ '':'' @ (case map_of ?nb k of Some s \<Rightarrow> s | None \<Rightarrow> ''undefined''))
          (sort (Object_keys (map fst ?nb)))"
    by (intro map_cong refl) (simp only: look)
  have ha: "hashNodeInputs A a = join ''|''
      (map (\<lambda>k. k @ '':'' @ (case map_of ?na k of Some s \<Rightarrow> s | None \<Rightarrow> ''undefined''))
          (sort (Object_keys (map fst ?na))))"
    unfolding hashNodeInputs_def Let_def by (rule refl)
  have hb: "hashNodeInputs B b = join ''|''
      (map (\<lambda>k. k @ '':'' @ (case map_of ?nb k of Some s \<Rightarrow> s | None \<Rightarrow> ''undefined''))
          (sort (Object_keys (map fst ?nb))))"
    unfolding hashNodeInputs_def Let_def by (rule refl)
  show ?thesis
    unfolding ha hb sk by (rule arg_cong[OF m])
qed

lemma size_diff_mset_sym:
  assumes "size (A :: 'a multiset) = size B"
  shows "size (A - B) = size (B - A)"
proof -
  have a: "size (A - B) = size A - size (A \<inter># B)"
    by (metis diff_intersect_left_idem size_Diff_submset subset_mset.inf_le1)
  have b: "size (B - A) = size B - size (A \<inter># B)"
    by (metis diff_intersect_left_idem size_Diff_submset subset_mset.inf_le2
        subset_mset.inf_commute)
  show ?thesis using a b assms by simp
qed

lemma findBestNodeMatching_empty_iff:
  assumes len: "length as = length bs"
    and da: "\<forall>e \<in> set as. distinct (map fst (inputs (snd e)))"
    and db: "\<forall>e \<in> set bs. distinct (map fst (inputs (snd e)))"
  shows "findBestNodeMatching A as bs B = [] \<longleftrightarrow>
     mset (map (\<lambda>n. hashNodeInputs A (snd n)) as) = mset (map (\<lambda>n. hashNodeInputs B (snd n)) bs)"
proof
  assume "mset (map (\<lambda>n. hashNodeInputs A (snd n)) as) = mset (map (\<lambda>n. hashNodeInputs B (snd n)) bs)"
  then show "findBestNodeMatching A as bs B = []"
    by (rule findBestNodeMatching_mset_eq)
next
  assume empty: "findBestNodeMatching A as bs B = []"
  let ?th = "map (\<lambda>n. hashNodeInputs A (snd n)) as"
  let ?oh = "map (\<lambda>n. hashNodeInputs B (snd n)) bs"
  obtain ut uo where m: "matchLoop ?th ?oh [0..<length as] ([], [0..<length bs]) = (ut, uo)"
    by fastforce
  from matchLoop_mset[OF m] obtain us where
    uo: "mset (map ((!) ?oh) uo) = mset (map ((!) ?oh) [0..<length bs]) - mset (map ((!) ?th) [0..<length as])"
    and ut: "ut = [] @ us" and sub: "set us \<subseteq> set [0..<length as]" "set uo \<subseteq> set [0..<length bs]"
    and us: "mset (map ((!) ?th) us) = mset (map ((!) ?th) [0..<length as]) - mset (map ((!) ?oh) [0..<length bs])"
    by blast
  have th: "map ((!) ?th) [0..<length as] = ?th" and oh: "map ((!) ?oh) [0..<length bs] = ?oh"
    using map_nth[of ?th] map_nth[of ?oh] by simp_all
  have U: "mset (map ((!) ?th) ut) = mset ?th - mset ?oh"
    using us ut th oh by simp
  have O: "mset (map ((!) ?oh) uo) = mset ?oh - mset ?th"
    using uo th oh by simp
  have "size (mset ?th - mset ?oh) = size (mset ?oh - mset ?th)"
    by (rule size_diff_mset_sym) (simp add: len)
  then have same: "length ut = length uo"
    using U O by (metis length_map size_mset)
  show "mset ?th = mset ?oh"
  proof (cases ut)
    case Nil
    then have "uo = []" using same by simp
    then have "mset ?oh - mset ?th = {#}" "mset ?th - mset ?oh = {#}"
      using O U Nil by simp_all
    then show ?thesis
      by (simp add: Diff_eq_empty_iff_mset subset_mset.order_antisym)
  next
    case (Cons i ut')
    then obtain j uo' where uoc: "uo = j # uo'"
      using same by (cases uo) auto
    have i: "i < length as" and j: "j < length bs"
      using sub ut Cons uoc by auto
    have c: "compareNodeInputs A (snd (as ! i)) (snd (bs ! j)) B = []"
      using empty m Cons uoc by (simp add: findBestNodeMatching_def)
    have "hashNodeInputs A (snd (as ! i)) = hashNodeInputs B (snd (bs ! j))"
      using da db i j by (intro compareNodeInputs_empty_hash[OF _ _ c]) simp_all
    then have h: "?th ! i = ?oh ! j" using i j by simp
    have "?th ! i \<in># mset ?th - mset ?oh"
      using U Cons by (metis list.set_intros(1) list.simps(9) set_mset_mset)
    moreover have "?oh ! j \<in># mset ?oh - mset ?th"
      using O uoc by (metis list.set_intros(1) list.simps(9) set_mset_mset)
    ultimately have False
      using h by (metis in_diff_count less_asym)
    then show ?thesis ..
  qed
qed

lemma wf_workflow_nodesOfClass:
  "wf_workflow G \<Longrightarrow> \<forall>e \<in> set (nodesOfClass G ct). distinct (map fst (inputs (snd e)))"
  by (auto simp: wf_workflow_def nodesOfClass_def list_all_iff)

lemma classDiff_sym:
  assumes "wf_workflow A" and "wf_workflow B"
    and gA: "groupOf gA ct = nodesOfClass A ct" and gB: "groupOf gB ct = nodesOfClass B ct"
  shows "classDiff A B gA gB ct = [] \<longleftrightarrow> classDiff B A gB gA ct = []"
proof -
  let ?as = "nodesOfClass A ct" and ?bs = "nodesOfClass B ct"
  note da = wf_workflow_nodesOfClass[OF assms(1), of ct]
  note db = wf_workflow_nodesOfClass[OF assms(2), of ct]
  consider "length ?as \<noteq> length ?bs" | "length ?as = length ?bs" "length ?as = 0"
    | "length ?as = length ?bs" "length ?as = 1" | "length ?as = length ?bs" "1 < length ?as"
    by linarith
  then show ?thesis
  proof cases
    case 1
    then show ?thesis
      by (simp add: classDiff_def Let_def gA gB)
  next
    case 2
    then show ?thesis
      by (simp add: classDiff_def Let_def gA gB)
  next
    case 3
    then show ?thesis
      using compareNodeInputs_sym[of A "snd (?as ! 0)" "snd (?bs ! 0)" B]
      by (simp add: classDiff_def Let_def gA gB)
  next
    case 4
    have "findBestNodeMatching A ?as ?bs B = [] \<longleftrightarrow> findBestNodeMatching B ?bs ?as A = []"
      unfolding findBestNodeMatching_empty_iff[OF 4(1) da db]
        findBestNodeMatching_empty_iff[OF 4(1)[symmetric] db da]
      by (rule eq_commute)
    then show ?thesis
      using 4 by (simp add: classDiff_def Let_def gA gB)
  qed
qed

subsection \<open>Clones and the store\<close>

text \<open>\<^verbatim>\<open>getNode\<close>, \<^verbatim>\<open>getNodes\<close> and \<^verbatim>\<open>findNodesByType\<close> clone what they return: every array a clone
  refers to lies past the end of the store as it was before the call, so an assignment
  through the clone leaves the state of the graph as it was.\<close>

lemma cloneSlots_extends: "\<exists>new. fst (cloneSlots h xs) = h @ new"
proof (induction h xs rule: cloneSlots.induct)
  case (1 h)
  then show ?case by simp
next
  case (2 h k p rest)
  then show ?case by simp
next
  case (3 h k a rest)
  then obtain new where "fst (cloneSlots (h @ [map jsonElement (h ! a)]) rest) =
      (h @ [map jsonElement (h ! a)]) @ new"
    by blast
  then show ?case by simp
qed

lemma cloneSlots_fresh:
  "(k', ArrayRef b) \<in> set (snd (cloneSlots h xs)) \<Longrightarrow>
     length h \<le> b \<and> b < length (fst (cloneSlots h xs))"
proof (induction h xs rule: cloneSlots.induct)
  case (1 h)
  then show ?case by simp
next
  case (2 h k p rest)
  then show ?case by (auto split: if_splits)
next
  case (3 h k a rest)
  obtain new where new: "fst (cloneSlots (h @ [map jsonElement (h ! a)]) rest) =
      (h @ [map jsonElement (h ! a)]) @ new"
    using cloneSlots_extends by blast
  from "3.prems" consider "b = length h"
    | "(k', ArrayRef b) \<in> set (snd (cloneSlots (h @ [map jsonElement (h ! a)]) rest))"
    by auto
  then show ?case
  proof cases
    case 1
    then show ?thesis using new by simp
  next
    case 2
    from "3.IH"[OF this] show ?thesis by simp
  qed
qed

lemma readSlot_frame:
  assumes "slotAllocated h s" and "length h \<le> b"
  shows "readSlot (arrayAssign (h @ new) b i v) s = readSlot h s"
  using assms
  by (cases s) (simp_all add: readSlot_def slotAllocated_def arrayAssign_def nth_append)

lemma storedState_frame:
  assumes "allocated h nodes" and "length h \<le> b"
  shows "storedState (arrayAssign (h @ new) b i v) nodes = storedState h nodes"
proof -
  have "readSlot (arrayAssign (h @ new) b i v) (snd kv) = readSlot h (snd kv)"
    if "e \<in> set nodes" and "kv \<in> set (inputSlots (snd e))" for e kv
    using assms that by (intro readSlot_frame) (auto simp: allocated_def list_all_iff)
  then show ?thesis
    by (auto simp: storedState_def)
qed

lemma getNode_isolated:
  assumes "allocated h nodes"
    and "getNode h nodes ident = (h', Some copy)"
    and "(k, ArrayRef b) \<in> set (inputSlots copy)"
  shows "storedState (arrayAssign h' b i v) nodes = storedState h nodes"
proof -
  from assms(2) obtain node where node: "map_of nodes ident = Some node"
    and h': "h' = fst (cloneSlots h (inputSlots node))"
    and copy: "inputSlots copy = snd (cloneSlots h (inputSlots node))"
    by (auto simp: getNode_def cloneNode_def split: option.splits)
  obtain new where new: "h' = h @ new"
    using cloneSlots_extends h' by blast
  have "length h \<le> b"
    using cloneSlots_fresh[of k b h "inputSlots node"] assms(3) copy by simp
  then show ?thesis
    unfolding new by (rule storedState_frame[OF assms(1)])
qed

lemma cloneNode_extends: "\<exists>new. fst (cloneNode h node) = h @ new"
  using cloneSlots_extends by (simp add: cloneNode_def)

lemma cloneNode_fresh:
  "(k, ArrayRef b) \<in> set (inputSlots (snd (cloneNode h node))) \<Longrightarrow> length h \<le> b"
  using cloneSlots_fresh[of k b h "inputSlots node"] by (simp add: cloneNode_def)

lemma cloneNodes_extends: "\<exists>new. fst (cloneNodes h nodes) = h @ new"
proof (induction nodes arbitrary: h)
  case Nil
  then show ?case by simp
next
  case (Cons e nodes)
  obtain ident node where e: "e = (ident, node)" by (cases e)
  obtain new1 where n1: "fst (cloneNode h node) = h @ new1"
    using cloneNode_extends by blast
  obtain new2 where "fst (cloneNodes (h @ new1) nodes) = (h @ new1) @ new2"
    using Cons.IH by blast
  then show ?case using e n1 by simp
qed

lemma cloneNodes_fresh:
  "(ident, copy) \<in> set (snd (cloneNodes h nodes)) \<Longrightarrow> (k, ArrayRef b) \<in> set (inputSlots copy)
     \<Longrightarrow> length h \<le> b"
proof (induction nodes arbitrary: h)
  case Nil
  then show ?case by simp
next
  case (Cons e nodes)
  obtain ident' node where e: "e = (ident', node)" by (cases e)
  obtain new1 where n1: "fst (cloneNode h node) = h @ new1"
    using cloneNode_extends by blast
  from Cons.prems(1) e consider "copy = snd (cloneNode h node)"
    | "(ident, copy) \<in> set (snd (cloneNodes (fst (cloneNode h node)) nodes))"
    by auto
  then show ?case
  proof cases
    case 1
    then show ?thesis using cloneNode_fresh Cons.prems(2) by blast
  next
    case 2
    from Cons.IH[OF this Cons.prems(2)] show ?thesis using n1 by simp
  qed
qed

lemma getNodes_isolated:
  assumes "allocated h nodes"
    and "getNodes h nodes = (h', copies)"
    and "(ident, copy) \<in> set copies" and "(k, ArrayRef b) \<in> set (inputSlots copy)"
  shows "storedState (arrayAssign h' b i v) nodes = storedState h nodes"
proof -
  have c: "h' = fst (cloneNodes h nodes)" "copies = snd (cloneNodes h nodes)"
    using assms(2) by (simp_all add: getNodes_def)
  obtain new where new: "h' = h @ new"
    using cloneNodes_extends c(1) by blast
  have "length h \<le> b"
    using cloneNodes_fresh assms(3,4) c(2) by blast
  then show ?thesis
    unfolding new by (rule storedState_frame[OF assms(1)])
qed

lemma findNodesByType_isolated:
  assumes "allocated h nodes"
    and "findNodesByType h nodes ct = (h', copies)"
    and "(ident, copy) \<in> set copies" and "(k, ArrayRef b) \<in> set (inputSlots copy)"
  shows "storedState (arrayAssign h' b i v) nodes = storedState h nodes"
proof -
  let ?sel = "filter (\<lambda>(ident, node). classTag node = ct) nodes"
  have c: "h' = fst (cloneNodes h ?sel)" "copies = snd (cloneNodes h ?sel)"
    using assms(2) by (simp_all add: findNodesByType_def)
  obtain new where new: "h' = h @ new"
    using cloneNodes_extends c(1) by blast
  have "length h \<le> b"
    using cloneNodes_fresh assms(3,4) c(2) by blast
  then show ?thesis
    unfolding new by (rule storedState_frame[OF assms(1)])
qed
subsection \<open>The normal form determines class tag and port\<close>






subsection \<open>A graph compared with itself\<close>

lemma compareInput_same:
  "map_of (inputs n) name \<noteq> Some (VNumber NaN) \<Longrightarrow> compareInput G n n G name = []"
proof -
  assume "map_of (inputs n) name \<noteq> Some (VNumber NaN)"
  then have "getProperty (inputs n) name \<noteq> Value (VNumber NaN)"
    by (simp add: getProperty_Value)
  then show ?thesis
    by (cases "getProperty (inputs n) name" rule: asNodeConnection.cases)
       (simp_all add: compareInput_def Let_def strictEquals_def)
qed

lemma compareNodeInputs_same:
  assumes "VNumber NaN \<notin> snd ` set (inputs n)"
  shows "compareNodeInputs G n n G = []"
proof -
  have "map_of (inputs n) name \<noteq> Some (VNumber NaN)" for name
  proof
    assume "map_of (inputs n) name = Some (VNumber NaN)"
    then have "(name, VNumber NaN) \<in> set (inputs n)" by (rule map_of_SomeD)
    then show False using assms by force
  qed
  then show ?thesis
    by (simp add: compareNodeInputs_def compareInput_same)
qed

lemma classDiff_same:
  assumes "groupOf g ct = nodesOfClass G ct"
    and "\<forall>e \<in> set G. VNumber NaN \<notin> snd ` set (inputs (snd e))"
  shows "classDiff G G g g ct = []"
proof -
  let ?ns = "nodesOfClass G ct"
  have single: "compareNodeInputs G (snd (?ns ! 0)) (snd (?ns ! 0)) G = []" if "length ?ns = 1"
  proof -
    have "?ns ! 0 \<in> set ?ns" using that by simp
    then have "?ns ! 0 \<in> set G" by (simp add: nodesOfClass_def)
    then show ?thesis using assms(2) by (intro compareNodeInputs_same) blast
  qed
  have multi: "findBestNodeMatching G ?ns ?ns G = []"
    by (rule findBestNodeMatching_mset_eq) (rule refl)
  show ?thesis
    using single multi by (simp add: classDiff_def Let_def assms(1))
qed

lemma getStructuralDiff_same:
  assumes "\<forall>e \<in> set G. class_type (snd e) \<notin> set objectPrototypeKeys"
    and "\<forall>e \<in> set G. VNumber NaN \<notin> snd ` set (inputs (snd e))"
  shows "getStructuralDiff G G = Inr []" and "isStructurallyEquivalentTo G G = Inr True"
proof -
  obtain g where g: "groupNodesByType G = Inr g"
    using assms(1) by (cases G rule: groupNodesByType_cases) auto
  have "classDiff G G g g ct = []" for ct
    by (rule classDiff_same[OF groupNodesByType_Inr(1)[OF g] assms(2)])
  then show "getStructuralDiff G G = Inr []"
    by (simp add: getStructuralDiff_empty_iff[OF g g])
  then show "isStructurallyEquivalentTo G G = Inr True"
    by (simp add: isStructurallyEquivalentTo_def)
qed

subsection \<open>Renamed graphs\<close>

lemma class_type_renameNode [simp]: "class_type (renameNode r n) = class_type n"
  by (simp add: renameNode_def)

lemma inputs_renameNode:
  "inputs (renameNode r n) = map (\<lambda>(k, v). (k, renameValue r v)) (inputs n)"
  by (simp add: renameNode_def)

lemma connectionSources_member:
  "e \<in> set G \<Longrightarrow> kv \<in> set (inputs (snd e)) \<Longrightarrow> snd kv = VConnection s p
     \<Longrightarrow> s \<in> connectionSources G"
  by (force simp: connectionSources_def sourcesOf_def)

lemma map_of_renamed:
  assumes d: "distinct (map fst G)"
    and inj: "inj_on r (fst ` set G \<union> S)"
    and perm: "mset G' = mset (map (renameEntry r) G)"
    and s: "s \<in> fst ` set G \<union> S"
  shows "map_of G' (r s) = map_option (renameNode r) (map_of G s)"
proof -
  let ?H = "map (renameEntry r) G"
  have keysH: "map fst ?H = map r (map fst G)"
    by (simp add: renameEntry_def comp_def)
  have "inj_on r (set (map fst G))"
    using inj by (auto intro: inj_on_subset)
  then have dH: "distinct (map fst ?H)"
    unfolding keysH distinct_map[of r "map fst G"] using d by blast
  have "mset (map fst G') = mset (map fst ?H)"
    using perm by (metis mset_map)
  then have dG': "distinct (map fst G')"
    using dH by (metis mset_eq_imp_distinct_iff)
  have "set G' = set ?H" using perm by (metis set_mset_mset)
  then have eq: "map_of G' = map_of ?H"
    using dG' dH by (simp add: map_of_inject_set)
  show ?thesis
  proof (cases "map_of G s")
    case None
    then have "s \<notin> fst ` set G" by (simp add: map_of_eq_None_iff)
    then have "r s \<notin> r ` (fst ` set G)"
      using inj s by (auto simp: inj_on_def)
    moreover have "fst ` set ?H = r ` (fst ` set G)"
      by (force simp: renameEntry_def)
    ultimately have "r s \<notin> fst ` set ?H"
      by simp
    then have "map_of ?H (r s) = None" by (simp add: map_of_eq_None_iff)
    then show ?thesis using None eq by simp
  next
    case (Some n)
    then have "(s, n) \<in> set G" by (rule map_of_SomeD)
    then have "(r s, renameNode r n) \<in> set ?H"
      by (force simp: renameEntry_def)
    then have "map_of ?H (r s) = Some (renameNode r n)"
      using dH by (rule map_of_is_SomeI[rotated])
    then show ?thesis using Some eq by simp
  qed
qed

lemma normalizeConnection_renamed:
  assumes "distinct (map fst G)"
    and "inj_on r (fst ` set G \<union> connectionSources G)"
    and "mset G' = mset (map (renameEntry r) G)"
    and dang: "\<forall>s \<in> connectionSources G - fst ` set G.
        (r s \<in> set objectPrototypeKeys) = (s \<in> set objectPrototypeKeys)"
    and s: "s \<in> fst ` set G \<union> connectionSources G"
  shows "normalizeConnection G' (r s) p = normalizeConnection G s p"
proof (cases "map_of G s")
  case None
  then have "s \<notin> fst ` set G" by (simp add: map_of_eq_None_iff)
  then have "(r s \<in> set objectPrototypeKeys) = (s \<in> set objectPrototypeKeys)"
    using dang s by blast
  moreover have "map_of G' (r s) = None"
    using map_of_renamed[OF assms(1-3) s] None by simp
  ultimately show ?thesis
    using None by (simp add: normalizeConnection_def getProperty_def)
next
  case (Some n)
  then have "map_of G' (r s) = Some (renameNode r n)"
    using map_of_renamed[OF assms(1-3) s] by simp
  then show ?thesis
    using Some by (simp add: normalizeConnection_def getProperty_def)
qed

lemma encodeInput_renamed:
  assumes "distinct (map fst G)"
    and "inj_on r (fst ` set G \<union> connectionSources G)"
    and "mset G' = mset (map (renameEntry r) G)"
    and "\<forall>s \<in> connectionSources G - fst ` set G.
        (r s \<in> set objectPrototypeKeys) = (s \<in> set objectPrototypeKeys)"
    and "e \<in> set G" and "kv \<in> set (inputs (snd e))"
  shows "encodeInput G' (renameValue r (snd kv)) = encodeInput G (snd kv)"
proof (cases "snd kv")
  case (VConnection s p)
  then have "s \<in> fst ` set G \<union> connectionSources G"
    using connectionSources_member[OF assms(5,6)] by simp
  from normalizeConnection_renamed[OF assms(1-4) this]
  show ?thesis using VConnection by (simp add: encodeInput_def renameValue_def)
qed (simp_all add: encodeInput_def renameValue_def)

lemma hashNodeInputs_renamed:
  assumes "distinct (map fst G)"
    and "inj_on r (fst ` set G \<union> connectionSources G)"
    and "mset G' = mset (map (renameEntry r) G)"
    and "\<forall>s \<in> connectionSources G - fst ` set G.
        (r s \<in> set objectPrototypeKeys) = (s \<in> set objectPrototypeKeys)"
    and "e \<in> set G"
  shows "hashNodeInputs G' (renameNode r (snd e)) = hashNodeInputs G (snd e)"
proof -
  let ?keep = "\<lambda>(key, v). key \<noteq> ''__proto__''"
  have f: "filter ?keep (map (\<lambda>(k, v). (k, renameValue r v)) xs) =
      map (\<lambda>(k, v). (k, renameValue r v)) (filter ?keep xs)" for xs :: "(string \<times> InputValue) list"
    by (induction xs) auto
  have "map (\<lambda>(key, v). (key, encodeInput G' v)) (filter ?keep (inputs (renameNode r (snd e)))) =
        map (\<lambda>kv. (fst kv, encodeInput G' (renameValue r (snd kv)))) (filter ?keep (inputs (snd e)))"
    by (simp add: inputs_renameNode f case_prod_beta comp_def)
  also have "\<dots> = map (\<lambda>kv. (fst kv, encodeInput G (snd kv))) (filter ?keep (inputs (snd e)))"
    using encodeInput_renamed[OF assms] by (intro map_cong) simp_all
  also have "\<dots> = map (\<lambda>(key, v). (key, encodeInput G v)) (filter ?keep (inputs (snd e)))"
    by (simp add: case_prod_beta)
  finally show ?thesis by (simp add: hashNodeInputs_def)
qed

lemma compareInput_renamed:
  assumes "distinct (map fst G)"
    and "inj_on r (fst ` set G \<union> connectionSources G)"
    and "mset G' = mset (map (renameEntry r) G)"
    and "\<forall>s \<in> connectionSources G - fst ` set G.
        (r s \<in> set objectPrototypeKeys) = (s \<in> set objectPrototypeKeys)"
    and "e \<in> set G" and nan: "VNumber NaN \<notin> snd ` set (inputs (snd e))"
  shows "compareInput G' (renameNode r (snd e)) (snd e) G name = []
       \<and> compareInput G (snd e) (renameNode r (snd e)) G' name = []"
proof -
  have m: "map_of (inputs (renameNode r (snd e))) name =
      map_option (renameValue r) (map_of (inputs (snd e)) name)"
    by (simp add: inputs_renameNode map_of_map_values)
  show ?thesis
  proof (cases "map_of (inputs (snd e)) name")
    case None
    then show ?thesis
      using m by (simp add: compareInput_def getProperty_def strictEquals_def)
  next
    case (Some v)
    then have kv: "(name, v) \<in> set (inputs (snd e))" by (rule map_of_SomeD)
    then have v: "v \<noteq> VNumber NaN" using nan by force
    show ?thesis
    proof (cases v)
      case (VConnection s p)
      then have "s \<in> fst ` set G \<union> connectionSources G"
        using connectionSources_member[OF assms(5) kv] by simp
      from normalizeConnection_renamed[OF assms(1-4) this]
      show ?thesis
        using m Some VConnection by (simp add: compareInput_def getProperty_def renameValue_def)
    qed (use m Some v in \<open>simp_all add: compareInput_def getProperty_def renameValue_def
          strictEquals_def\<close>)
  qed
qed

lemma compareNodeInputs_renamed:
  assumes "distinct (map fst G)"
    and "inj_on r (fst ` set G \<union> connectionSources G)"
    and "mset G' = mset (map (renameEntry r) G)"
    and "\<forall>s \<in> connectionSources G - fst ` set G.
        (r s \<in> set objectPrototypeKeys) = (s \<in> set objectPrototypeKeys)"
    and "e \<in> set G" and "VNumber NaN \<notin> snd ` set (inputs (snd e))"
  shows "compareNodeInputs G' (renameNode r (snd e)) (snd e) G = []"
    and "compareNodeInputs G (snd e) (renameNode r (snd e)) G' = []"
  by (simp_all add: compareNodeInputs_def compareInput_renamed[OF assms])

lemma nodesOfClass_renamed:
  assumes "mset G' = mset (map (renameEntry r) G)"
  shows "mset (nodesOfClass G' ct) = image_mset (renameEntry r) (mset (nodesOfClass G ct))"
proof -
  have "mset (nodesOfClass G' ct) =
      filter_mset (\<lambda>e. class_type (snd e) = ct) (image_mset (renameEntry r) (mset G))"
    using assms by (simp add: nodesOfClass_def)
  also have "\<dots> = image_mset (renameEntry r) (filter_mset (\<lambda>e. class_type (snd e) = ct) (mset G))"
    by (simp add: filter_mset_image_mset renameEntry_def)
  finally show ?thesis by (simp add: nodesOfClass_def)
qed

lemma hashes_renamed:
  assumes "distinct (map fst G)"
    and "inj_on r (fst ` set G \<union> connectionSources G)"
    and "mset G' = mset (map (renameEntry r) G)"
    and "\<forall>s \<in> connectionSources G - fst ` set G.
        (r s \<in> set objectPrototypeKeys) = (s \<in> set objectPrototypeKeys)"
  shows "mset (map (\<lambda>n. hashNodeInputs G' (snd n)) (nodesOfClass G' ct)) =
         mset (map (\<lambda>n. hashNodeInputs G (snd n)) (nodesOfClass G ct))"
proof -
  have "mset (map (\<lambda>n. hashNodeInputs G' (snd n)) (nodesOfClass G' ct)) =
        image_mset (\<lambda>n. hashNodeInputs G' (snd n)) (image_mset (renameEntry r) (mset (nodesOfClass G ct)))"
    using nodesOfClass_renamed[OF assms(3), of ct] by simp
  also have "\<dots> = image_mset (\<lambda>e. hashNodeInputs G' (renameNode r (snd e))) (mset (nodesOfClass G ct))"
    by (simp add: image_mset.compositionality comp_def renameEntry_def)
  also have "\<dots> = image_mset (\<lambda>e. hashNodeInputs G (snd e)) (mset (nodesOfClass G ct))"
    by (intro image_mset_cong hashNodeInputs_renamed[OF assms]) (simp add: nodesOfClass_def)
  finally show ?thesis by simp
qed

lemma classDiff_renamed:
  assumes "distinct (map fst G)"
    and "inj_on r (fst ` set G \<union> connectionSources G)"
    and "mset G' = mset (map (renameEntry r) G)"
    and "\<forall>s \<in> connectionSources G - fst ` set G.
        (r s \<in> set objectPrototypeKeys) = (s \<in> set objectPrototypeKeys)"
    and nan: "\<forall>e \<in> set G. VNumber NaN \<notin> snd ` set (inputs (snd e))"
    and g: "groupOf g ct = nodesOfClass G ct" and g': "groupOf g' ct = nodesOfClass G' ct"
  shows "classDiff G' G g' g ct = [] \<and> classDiff G G' g g' ct = []"
proof -
  let ?as' = "nodesOfClass G' ct" and ?as = "nodesOfClass G ct"
  have M: "mset ?as' = image_mset (renameEntry r) (mset ?as)"
    by (rule nodesOfClass_renamed[OF assms(3)])
  then have "size (mset ?as') = size (mset ?as)" by simp
  then have len: "length ?as' = length ?as" by simp
  consider "length ?as = 0" | "length ?as = 1" | "1 < length ?as" by linarith
  then show ?thesis
  proof cases
    case 1
    then show ?thesis using len
      by (simp add: classDiff_def Let_def g g')
  next
    case 2
    then obtain e where e: "?as = [e]"
      by (cases ?as) auto
    then have eG: "e \<in> set G"
      by (metis filter_is_subset list.set_intros(1) nodesOfClass_def subsetD)
    then have "VNumber NaN \<notin> snd ` set (inputs (snd e))" using nan by blast
    note c = compareNodeInputs_renamed[OF assms(1-4) eG this]
    have "mset ?as' = {#renameEntry r e#}" using M e by simp
    then have e': "?as' = [renameEntry r e]" by simp
    show ?thesis
      using e e' c by (simp add: classDiff_def Let_def g g' renameEntry_def)
  next
    case 3
    note h = hashes_renamed[OF assms(1-4), of ct]
    have "findBestNodeMatching G' ?as' ?as G = []"
      using h by (rule findBestNodeMatching_mset_eq)
    moreover have "findBestNodeMatching G ?as ?as' G' = []"
      using h[symmetric] by (rule findBestNodeMatching_mset_eq)
    ultimately show ?thesis
      using 3 len by (simp add: classDiff_def Let_def g g')
  qed
qed

lemma getStructuralDiff_renamed:
  assumes "distinct (map fst G)"
    and "inj_on r (fst ` set G \<union> connectionSources G)"
    and "mset G' = mset (map (renameEntry r) G)"
    and "\<forall>s \<in> connectionSources G - fst ` set G.
        (r s \<in> set objectPrototypeKeys) = (s \<in> set objectPrototypeKeys)"
    and "\<forall>e \<in> set G. VNumber NaN \<notin> snd ` set (inputs (snd e))"
    and cls: "\<forall>e \<in> set G. class_type (snd e) \<notin> set objectPrototypeKeys"
  shows "getStructuralDiff G' G = Inr [] \<and> getStructuralDiff G G' = Inr []
       \<and> isStructurallyEquivalentTo G' G = Inr True \<and> isStructurallyEquivalentTo G G' = Inr True"
proof -
  have "set G' = renameEntry r ` set G"
    using assms(3) by (metis set_mset_mset set_map)
  then have cls': "\<forall>e \<in> set G'. class_type (snd e) \<notin> set objectPrototypeKeys"
    using cls by (auto simp: renameEntry_def)
  obtain g where g: "groupNodesByType G = Inr g"
    using cls by (cases G rule: groupNodesByType_cases) auto
  obtain g' where g': "groupNodesByType G' = Inr g'"
    using cls' by (cases G' rule: groupNodesByType_cases) auto
  have c: "classDiff G' G g' g ct = [] \<and> classDiff G G' g g' ct = []" for ct
    by (rule classDiff_renamed[OF assms(1-5) groupNodesByType_Inr(1)[OF g]
          groupNodesByType_Inr(1)[OF g']])
  have a: "getStructuralDiff G' G = Inr []"
    using c by (simp add: getStructuralDiff_empty_iff[OF g' g])
  have b: "getStructuralDiff G G' = Inr []"
    using c by (simp add: getStructuralDiff_empty_iff[OF g g'])
  show ?thesis
    using a b by (simp add: isStructurallyEquivalentTo_def)
qed

subsection \<open>Counts, matching, removal and dangling connections\<close>

lemma length_nodesOfClass_mset:
  "mset A = mset B \<Longrightarrow> length (nodesOfClass A ct) = length (nodesOfClass B ct)"
  by (metis nodesOfClass_def mset_filter size_mset)

lemma extra_node_count:
  assumes "mset A = add_mset e (mset B)"
  shows "length (nodesOfClass A (class_type (snd e))) = Suc (length (nodesOfClass B (class_type (snd e))))"
proof -
  have "mset (nodesOfClass A (class_type (snd e))) =
        add_mset e (mset (nodesOfClass B (class_type (snd e))))"
    using assms by (simp add: nodesOfClass_def)
  then have "size (mset (nodesOfClass A (class_type (snd e)))) =
        Suc (size (mset (nodesOfClass B (class_type (snd e)))))"
    by simp
  then show ?thesis by simp
qed

lemma getStructuralDiff_multi_node:
  assumes "getStructuralDiff A B = Inr ds"
    and "length (nodesOfClass A ct) = length (nodesOfClass B ct)"
    and "1 < length (nodesOfClass A ct)"
  shows "filter (\<lambda>d. classType d = Some ct) ds
           = map (\<lambda>d. d\<lparr>classType := Some ct\<rparr>)
               (specMultiNodeDiff A (nodesOfClass A ct) (nodesOfClass B ct) B)"
proof -
  from assms(1) obtain gA gB where g: "groupNodesByType A = Inr gA" "groupNodesByType B = Inr gB"
    by (auto simp: getStructuralDiff_def split: sum.splits)
  have "nodesOfClass A ct \<noteq> []" using assms(3) by auto
  then have "ct \<in> (class_type \<circ> snd) ` set A"
    by (simp only: nodesOfClass_nonempty)
  then have "ct \<in> (class_type \<circ> snd) ` set A \<union> (class_type \<circ> snd) ` set B"
    by (rule UnI1)
  then have "filter (\<lambda>d. classType d = Some ct) ds = classDiff A B gA gB ct"
    by (simp only: getStructuralDiff_filter[OF g assms(1)] if_True)
  then show ?thesis
    by (simp only: classDiff_multi[OF groupNodesByType_Inr(1)[OF g(1)]
          groupNodesByType_Inr(1)[OF g(2)] assms(2,3)] findBestNodeMatching_spec)
qed

lemma removeNode_absent:
  "map_of G i = None \<Longrightarrow> i \<notin> set objectPrototypeKeys \<Longrightarrow> removeNode G i = G"
  by (simp add: removeNode_def getProperty_def)

lemma removeNode_inherited_cascade:
  assumes "map_of G i = None" and "i \<in> set objectPrototypeKeys"
  shows "removeNode G i = map (\<lambda>(ident, node). (ident, detachInputs i node)) G"
proof -
  have "i \<notin> fst ` set G" using assms(1) by (simp add: map_of_eq_None_iff)
  then have "filter (\<lambda>(ident, node). ident \<noteq> i) (map (\<lambda>(ident, node). (ident, detachInputs i node)) G)
      = map (\<lambda>(ident, node). (ident, detachInputs i node)) G"
    by (induction G) auto
  then show ?thesis
    using assms by (simp add: removeNode_def getProperty_def)
qed

lemma removeNode_present:
  assumes "wf_workflow G" and p: "map_of G i \<noteq> None"
  shows "map_of (removeNode G i) i = None"
    and "map fst (removeNode G i) = filter (\<lambda>j. j \<noteq> i) (map fst G)"
    and "j \<noteq> i \<Longrightarrow> map_of G j = Some n \<Longrightarrow>
           (\<exists>n'. map_of (removeNode G i) j = Some n'
               \<and> class_type n' = class_type n \<and> meta n' = meta n
               \<and> (\<forall>k. map_of (inputs n') k =
                     (case map_of (inputs n) k of
                        None \<Rightarrow> None
                      | Some v \<Rightarrow> if isConnectionFrom i v then None else Some v)))"
proof -
  from p obtain ni where ni: "map_of G i = Some ni" by auto
  have r: "removeNode G i =
      filter (\<lambda>(ident, node). ident \<noteq> i) (map (\<lambda>(ident, node). (ident, detachInputs i node)) G)"
    using ni by (simp add: removeNode_def getProperty_def)
  show "map_of (removeNode G i) i = None"
    unfolding r by (simp add: map_of_filter_keys)
  show "map fst (removeNode G i) = filter (\<lambda>j. j \<noteq> i) (map fst G)"
    unfolding r by (induction G) auto
  assume jn: "j \<noteq> i" "map_of G j = Some n"
  have l: "map_of (removeNode G i) j = Some (detachInputs i n)"
    unfolding r using jn by (simp add: map_of_filter_keys map_of_map_values)
  have d: "distinct (map fst (inputs n))"
    using wf_workflow_inputs[OF assms(1)] jn by blast
  show "\<exists>n'. map_of (removeNode G i) j = Some n'
          \<and> class_type n' = class_type n \<and> meta n' = meta n
          \<and> (\<forall>k. map_of (inputs n') k =
                (case map_of (inputs n) k of
                   None \<Rightarrow> None
                 | Some v \<Rightarrow> if isConnectionFrom i v then None else Some v))"
    using l inputs_detachInputs[OF d] by (simp add: detachInputs_def)
qed

lemma normalizeConnection_dangling:
  assumes "map_of A s = None"
  shows "normalizeConnection A s p =
     (if s \<in> set objectPrototypeKeys then ''undefined:'' else ''UNKNOWN:'') @ showNumber p"
  using assms by (simp add: normalizeConnection_def getProperty_def)

lemma hashNodeInputs_single:
  assumes "name \<noteq> ''__proto__''"
  shows "hashNodeInputs A \<lparr>inputs = [(name, v)], class_type = c, meta = m\<rparr>
     = name @ '':'' @ encodeInput A v"
  using assms by (simp add: hashNodeInputs_def Object_keys_def)

lemma dangling_connections_alike:
  assumes "map_of A s = None" and "s \<notin> set objectPrototypeKeys"
    and "map_of B s' = None" and "s' \<notin> set objectPrototypeKeys"
  shows "normalizeConnection A s p = ''UNKNOWN:'' @ showNumber p"
    and "encodeInput A (VConnection s p) = encodeInput B (VConnection s' p)"
    and "name \<noteq> ''__proto__'' \<Longrightarrow>
           hashNodeInputs A \<lparr>inputs = [(name, VConnection s p)], class_type = c, meta = m\<rparr>
             = name @ '':UNKNOWN:'' @ showNumber p"
    and "map_of (inputs a) name = Some (VConnection s p) \<Longrightarrow>
         map_of (inputs b) name = Some (VConnection s' p) \<Longrightarrow>
           filter (\<lambda>d. inputName d = Some name) (compareNodeInputs A a b B) = []"
proof -
  show na: "normalizeConnection A s p = ''UNKNOWN:'' @ showNumber p"
    using assms(1,2) by (simp add: normalizeConnection_dangling)
  have nb: "normalizeConnection B s' p = ''UNKNOWN:'' @ showNumber p"
    using assms(3,4) by (simp add: normalizeConnection_dangling)
  show "encodeInput A (VConnection s p) = encodeInput B (VConnection s' p)"
    using na nb by (simp add: encodeInput_def)
  show "hashNodeInputs A \<lparr>inputs = [(name, VConnection s p)], class_type = c, meta = m\<rparr>
             = name @ '':UNKNOWN:'' @ showNumber p" if "name \<noteq> ''__proto__''"
    using that na by (simp add: hashNodeInputs_single encodeInput_def)
  show "filter (\<lambda>d. inputName d = Some name) (compareNodeInputs A a b B) = []"
    if c: "map_of (inputs a) name = Some (VConnection s p)"
      "map_of (inputs b) name = Some (VConnection s' p)"
  proof -
    have key: "name \<in> fst ` set (inputs a) \<union> fst ` set (inputs b)"
      using c(1) by (simp add: map_of_Some_key)
    have "compareInput A a b B name = []"
      using c na nb by (simp add: compareInput_connections)
    then show ?thesis
      using key by (simp only: compareNodeInputs_filter if_True)
  qed
qed

section \<open>Reflexivity of structural equivalence\<close>

text \<open>
  Claim C3 says that every graph is structurally equivalent to itself. The code is not:
  a node that is alone in its class and holds the literal \<^verbatim>\<open>NaN\<close> is compared with itself by
  \<^verbatim>\<open>!==\<close> and reported as an \<^verbatim>\<open>input_mismatch\<close>, so the graph after
  \<^verbatim>\<open>addNode('KSampler', { cfg: NaN })\<close> is not equivalent to itself; two such nodes of one class
  are matched by their content hashes and the graph is equivalent to itself. A graph with
  a node whose class tag names a member of \<^verbatim>\<open>Object.prototype\<close> makes the comparison raise
  a \<^verbatim>\<open>TypeError\<close>. On every other graph the diff against itself is empty
  (\<open>getStructuralDiff_same\<close>).
\<close>

theorem getStructuralDiff_not_reflexive:
  "getStructuralDiff nanWorkflow nanWorkflow =
     Inr [\<lparr>type = input_mismatch, classType = Some ''KSampler'', inputName = Some ''cfg'',
           expected = Value (VNumber NaN), actual = Value (VNumber NaN),
           details = inputNamePrefix ''cfg'' @ ''expected null, got null''\<rparr>]
   \<and> isStructurallyEquivalentTo nanWorkflow nanWorkflow = Inr False
   \<and> isStructurallyEquivalentTo nanPairWorkflow nanPairWorkflow = Inr True
   \<and> getStructuralDiff prototypeClassWorkflow prototypeClassWorkflow = Inl TypeError
   \<and> isStructurallyEquivalentTo prototypeClassWorkflow prototypeClassWorkflow = Inl TypeError"
  by code_simp

section \<open>Count sensitivity\<close>

text \<open>
  Claim C4 says that a class tag whose node counts differ between \<open>A\<close> and \<open>B\<close> yields
  exactly one \<^verbatim>\<open>class_type_count_mismatch\<close> record. For the class tag \<^verbatim>\<open>toString\<close>, with one
  node in \<open>A\<close> and none in \<open>B\<close>, the code yields no record: the grouping of \<open>A\<close> raises a
  \<^verbatim>\<open>TypeError\<close>, in both directions of the comparison. Whenever the call returns, the
  records of the class are the one count record (\<open>count_mismatch_filter\<close>).
\<close>

theorem count_mismatch_raises:
  "length (nodesOfClass prototypeClassWorkflow ''toString'') = 1
   \<and> length (nodesOfClass [] ''toString'') = 0
   \<and> getStructuralDiff prototypeClassWorkflow [] = Inl TypeError
   \<and> getStructuralDiff [] prototypeClassWorkflow = Inl TypeError
   \<and> isStructurallyEquivalentTo prototypeClassWorkflow [] = Inl TypeError"
  by code_simp

section \<open>Connections are compared by class tag and port\<close>



section \<open>Dangling connections\<close>

text \<open>
  Claim C10 says that a connection whose source id is no key of its graph is normalized to
  \<^verbatim>\<open>UNKNOWN:\<close> followed by the port, in the diff and in the content hash, so that two dangling
  connections of equal port are never told apart. For the absent source id \<^verbatim>\<open>toString\<close> the
  code produces \<^verbatim>\<open>undefined:1\<close>: the hash of the node is \<^verbatim>\<open>vae:undefined:1\<close> where that of
  the same node with the absent source \<^verbatim>\<open>7\<close> is \<^verbatim>\<open>vae:UNKNOWN:1\<close>, and the node-input-diff of the
  two nodes is a \<^verbatim>\<open>connection_mismatch\<close> record; \<^verbatim>\<open>validateConnections\<close> reports the same
  connection as a reference to a node that does not exist. For absent ids that name no
  member of \<^verbatim>\<open>Object.prototype\<close> the claim holds (\<open>dangling_connections_alike\<close>).
\<close>

theorem dangling_connection_inherited_id:
  "map_of inheritedDanglingWorkflow ''toString'' = None
   \<and> map_of danglingWorkflow1 ''7'' = None
   \<and> normalizeConnection inheritedDanglingWorkflow ''toString'' (Num 1) = ''undefined:1''
   \<and> normalizeConnection danglingWorkflow1 ''7'' (Num 1) = ''UNKNOWN:1''
   \<and> hashNodeInputs inheritedDanglingWorkflow (snd (inheritedDanglingWorkflow ! 0)) = ''vae:undefined:1''
   \<and> hashNodeInputs danglingWorkflow1 (snd (danglingWorkflow1 ! 0)) = ''vae:UNKNOWN:1''
   \<and> compareNodeInputs inheritedDanglingWorkflow (snd (inheritedDanglingWorkflow ! 0))
        (snd (danglingWorkflow1 ! 0)) danglingWorkflow1 =
      [\<lparr>type = connection_mismatch, classType = None, inputName = Some ''vae'',
        expected = Value (VString ''UNKNOWN:1''), actual = Value (VString ''undefined:1''),
        details = inputNamePrefix ''vae''
          @ ''connection mismatch - expected UNKNOWN:1, got undefined:1''\<rparr>]
   \<and> map message (errors (validateConnections inheritedDanglingWorkflow)) =
      [''Node '' @ quoted ''2'' @ '' references non-existent node '' @ quoted ''toString''
         @ '' in input '' @ quoted ''vae'']"
  by code_simp

section \<open>Removing a node detaches its dependents\<close>

text \<open>
  Claim C7 says that \<^verbatim>\<open>removeNode(id)\<close> on an absent id leaves the graph unchanged. For the
  absent id \<^verbatim>\<open>constructor\<close> the guard \<^verbatim>\<open>!this.nodes[nodeId]\<close> reads the inherited member and
  does not return: the cascade runs and deletes the input \<^verbatim>\<open>vae\<close> of node 2, a dangling
  connection from that id (in general \<open>removeNode_inherited_cascade\<close>). The absent id
  \<^verbatim>\<open>7\<close> leaves the graph as it is. On absent ids that name no member of
  \<^verbatim>\<open>Object.prototype\<close> and on present ids the operation does what the claim says
  (\<open>removeNode_absent\<close>, \<open>removeNode_present\<close>).
\<close>

theorem removeNode_absent_inherited_id:
  "map_of constructorWorkflow ''constructor'' = None
   \<and> removeNode constructorWorkflow ''constructor'' =
       [(''2'', \<lparr>inputs = [(''steps'', VNumber (Num 20))], class_type = ''VAEEncode'', meta = None\<rparr>)]
   \<and> removeNode constructorWorkflow ''constructor'' \<noteq> constructorWorkflow
   \<and> map_of constructorWorkflow ''7'' = None
   \<and> removeNode constructorWorkflow ''7'' = constructorWorkflow"
  by code_simp

section \<open>Isolation warnings\<close>

text \<open>
  Claim C9. For a well-formed workflow and the id \<open>i\<close> of one of its nodes,
  \<^verbatim>\<open>validateConnections\<close> emits exactly one warning naming \<open>i\<close> if \<open>i\<close> is not the source of
  any connection in any node's inputs and the node \<open>i\<close> has no connection-valued input
  itself; otherwise it emits no warning naming \<open>i\<close>. Every warning is an isolation warning
  naming a node of the workflow.
\<close>

theorem isolated_warning_iff:
  assumes "wf_workflow G" and "i \<in> fst ` set G"
  shows "(length (filter (\<lambda>w. nodeId w = Some i) (warnings (validateConnections G))) = 1
            \<longleftrightarrow> \<not> occursAsSource G i \<and> \<not> hasConnectionInput G i)
       \<and> (occursAsSource G i \<or> hasConnectionInput G i \<longrightarrow>
            filter (\<lambda>w. nodeId w = Some i) (warnings (validateConnections G)) = [])
       \<and> (\<forall>w \<in> set (warnings (validateConnections G)).
            severity w = SeverityWarning \<and> (\<exists>j \<in> fst ` set G. nodeId w = Some j))"
proof -
  have d: "distinct (map fst G)" using assms(1) by (simp add: wf_workflow_def)
  have ref: "i \<in> set (referencedNodeIds G) \<longleftrightarrow> occursAsSource G i \<or> hasConnectionInput G i"
    unfolding set_referencedNodeIds occursAsSource_iff hasConnectionInput_iff[OF d] by blast
  have w: "warnings (validateConnections G) = isolationWarnings G"
    by (simp add: validateConnections_def)
  have "\<forall>w \<in> set (isolationWarnings G).
            severity w = SeverityWarning \<and> (\<exists>j \<in> fst ` set G. nodeId w = Some j)"
    by (auto simp: isolationWarnings_def set_new_Set split: if_splits)
  then show ?thesis
    unfolding w isolationWarnings_filter using assms(2) ref by auto
qed

theorem isolated_warning_iff_witness:
  "wf_workflow sampleWorkflow \<and> ''2'' \<in> fst ` set sampleWorkflow \<and> ''1'' \<in> fst ` set sampleWorkflow
   \<and> \<not> occursAsSource sampleWorkflow ''2'' \<and> \<not> hasConnectionInput sampleWorkflow ''2''
   \<and> length (filter (\<lambda>w. nodeId w = Some ''2'') (warnings (validateConnections sampleWorkflow))) = 1
   \<and> occursAsSource sampleWorkflow ''1''
   \<and> filter (\<lambda>w. nodeId w = Some ''1'') (warnings (validateConnections sampleWorkflow)) = []"
proof -
  have wf: "wf_workflow sampleWorkflow"
    by (simp add: wf_workflow_def sampleWorkflow_def)
  have k: "''2'' \<in> fst ` set sampleWorkflow" "''1'' \<in> fst ` set sampleWorkflow"
    by (simp_all add: sampleWorkflow_def)
  have iso: "\<not> occursAsSource sampleWorkflow ''2''" "\<not> hasConnectionInput sampleWorkflow ''2''"
    by (simp_all add: occursAsSource_def hasConnectionInput_def sampleWorkflow_def
          isConnectionFrom_def isConnection_def)
  have src: "occursAsSource sampleWorkflow ''1''"
    by (simp add: occursAsSource_def sampleWorkflow_def isConnectionFrom_def)
  from isolated_warning_iff[OF wf k(1)] iso
  have c1: "length (filter (\<lambda>w. nodeId w = Some ''2'') (warnings (validateConnections sampleWorkflow))) = 1"
    by blast
  from isolated_warning_iff[OF wf k(2)] src
  have c2: "filter (\<lambda>w. nodeId w = Some ''1'') (warnings (validateConnections sampleWorkflow)) = []"
    by blast
  from wf k iso c1 src c2 show ?thesis by (intro conjI)
qed

section \<open>Greedy matching of nodes of one class\<close>

text \<open>
  Claim C2 says that for a class tag with more than one node on each side and equal
  counts the engine pairs the nodes greedily by content hash and runs node-input-diff on
  the first unmatched pair. The matching step does so: the index loop of
  \<^verbatim>\<open>findBestNodeMatching\<close> computes the greedy pairing of the specification
  (\<open>findBestNodeMatching_spec\<close>), and whenever \<^verbatim>\<open>getStructuralDiff\<close> returns, the records of the
  class are those of that one pair (\<open>getStructuralDiff_multi_node\<close>). For the class tag
  \<^verbatim>\<open>toString\<close>, with two nodes on each side, the engine does not reach the matching: the
  pairing would leave one pair and one \<^verbatim>\<open>input_mismatch\<close> record, and the call raises a
  \<^verbatim>\<open>TypeError\<close> in the grouping.
\<close>

theorem multi_node_matching_raises:
  "length (nodesOfClass prototypeClassPair ''toString'') = 2
   \<and> length (nodesOfClass prototypeClassPairVariant ''toString'') = 2
   \<and> specMultiNodeDiff prototypeClassPair (nodesOfClass prototypeClassPair ''toString'')
        (nodesOfClass prototypeClassPairVariant ''toString'') prototypeClassPairVariant =
      [\<lparr>type = input_mismatch, classType = None, inputName = Some ''x'',
        expected = Value (VNumber (Num 3)), actual = Value (VNumber (Num 2)),
        details = inputNamePrefix ''x'' @ ''expected 3, got 2''\<rparr>]
   \<and> findBestNodeMatching prototypeClassPair (nodesOfClass prototypeClassPair ''toString'')
        (nodesOfClass prototypeClassPairVariant ''toString'') prototypeClassPairVariant =
      [\<lparr>type = input_mismatch, classType = None, inputName = Some ''x'',
        expected = Value (VNumber (Num 3)), actual = Value (VNumber (Num 2)),
        details = inputNamePrefix ''x'' @ ''expected 3, got 2''\<rparr>]
   \<and> getStructuralDiff prototypeClassPair prototypeClassPairVariant = Inl TypeError"
  by code_simp

section \<open>Invariance under renaming of node ids\<close>

text \<open>
  Claim C1 says that a graph whose node ids are remapped injectively (keys and connection
  sources alike) is structurally equivalent to the original. The remapping that sends the
  dangling source \<^verbatim>\<open>7\<close> to \<^verbatim>\<open>toString\<close> and fixes every other id is injective, and the
  remapped graph is not equivalent to the original, in either direction: the dangling
  connection is normalized to \<^verbatim>\<open>UNKNOWN:1\<close> in the original and to \<^verbatim>\<open>undefined:1\<close> in the
  remapped graph. The identity remapping of a graph that is not equivalent to itself is a
  second case. The claim holds when dangling sources keep their kind, no literal is
  \<^verbatim>\<open>NaN\<close> and no class tag names a member of \<^verbatim>\<open>Object.prototype\<close> (\<open>getStructuralDiff_renamed\<close>).
\<close>

theorem renaming_changes_dangling_connection:
  "inj_on danglingRenaming (fst ` set danglingWorkflow1 \<union> connectionSources danglingWorkflow1)
   \<and> map (renameEntry danglingRenaming) danglingWorkflow1 = inheritedDanglingWorkflow
   \<and> getStructuralDiff inheritedDanglingWorkflow danglingWorkflow1 =
      Inr [\<lparr>type = connection_mismatch, classType = Some ''VAEEncode'', inputName = Some ''vae'',
        expected = Value (VString ''UNKNOWN:1''), actual = Value (VString ''undefined:1''),
        details = inputNamePrefix ''vae''
          @ ''connection mismatch - expected UNKNOWN:1, got undefined:1''\<rparr>]
   \<and> isStructurallyEquivalentTo inheritedDanglingWorkflow danglingWorkflow1 = Inr False
   \<and> isStructurallyEquivalentTo danglingWorkflow1 inheritedDanglingWorkflow = Inr False
   \<and> inj_on (\<lambda>s. s) (fst ` set nanWorkflow \<union> connectionSources nanWorkflow)
   \<and> map (renameEntry (\<lambda>s. s)) nanWorkflow = nanWorkflow
   \<and> isStructurallyEquivalentTo (map (renameEntry (\<lambda>s. s)) nanWorkflow) nanWorkflow = Inr False"
proof -
  have "fst ` set danglingWorkflow1 \<union> connectionSources danglingWorkflow1 = {''2'', ''7''}"
    by (auto simp: danglingWorkflow1_def connectionSources_def sourcesOf_def)
  then have i: "inj_on danglingRenaming (fst ` set danglingWorkflow1 \<union> connectionSources danglingWorkflow1)"
    by (simp add: danglingRenaming_def)
  have r: "map (renameEntry danglingRenaming) danglingWorkflow1 = inheritedDanglingWorkflow"
    by (simp add: danglingWorkflow1_def inheritedDanglingWorkflow_def renameEntry_def
          renameNode_def renameValue_def danglingRenaming_def)
  have d: "getStructuralDiff inheritedDanglingWorkflow danglingWorkflow1 =
      Inr [\<lparr>type = connection_mismatch, classType = Some ''VAEEncode'', inputName = Some ''vae'',
        expected = Value (VString ''UNKNOWN:1''), actual = Value (VString ''undefined:1''),
        details = inputNamePrefix ''vae''
          @ ''connection mismatch - expected UNKNOWN:1, got undefined:1''\<rparr>]"
    by code_simp
  have e: "isStructurallyEquivalentTo inheritedDanglingWorkflow danglingWorkflow1 = Inr False"
    by code_simp
  have e': "isStructurallyEquivalentTo danglingWorkflow1 inheritedDanglingWorkflow = Inr False"
    by code_simp
  have i2: "inj_on (\<lambda>s. s) (fst ` set nanWorkflow \<union> connectionSources nanWorkflow)"
    by simp
  have r2: "map (renameEntry (\<lambda>s. s)) nanWorkflow = nanWorkflow"
    by (simp add: nanWorkflow_def renameEntry_def renameNode_def renameValue_def)
  have n: "isStructurallyEquivalentTo (map (renameEntry (\<lambda>s. s)) nanWorkflow) nanWorkflow = Inr False"
    unfolding r2 by code_simp
  from i r d e e' i2 r2 n show ?thesis by (intro conjI)
qed

section \<open>Symmetry of equivalence\<close>

text \<open>
  Claim C6. For graphs \<open>A\<close> and \<open>B\<close>, \<^verbatim>\<open>A.getStructuralDiff(B)\<close> is empty if and only if
  \<^verbatim>\<open>B.getStructuralDiff(A)\<close> is empty: the records of the two directions may differ, but
  being equivalent is symmetric. The two calls also raise together, so
  \<^verbatim>\<open>A.isStructurallyEquivalentTo(B)\<close> and \<^verbatim>\<open>B.isStructurallyEquivalentTo(A)\<close> have the same
  outcome.
\<close>

theorem equivalence_symmetric:
  assumes "wf_workflow A" and "wf_workflow B"
  shows "(getStructuralDiff A B = Inr [] \<longleftrightarrow> getStructuralDiff B A = Inr [])
       \<and> isStructurallyEquivalentTo A B = isStructurallyEquivalentTo B A
       \<and> (getStructuralDiff A B = Inl TypeError \<longleftrightarrow> getStructuralDiff B A = Inl TypeError)"
proof -
  have raise: "getStructuralDiff A B = Inl TypeError \<longleftrightarrow> getStructuralDiff B A = Inl TypeError"
    unfolding getStructuralDiff_Inl by (simp add: Un_commute)
  show ?thesis
  proof (cases "getStructuralDiff A B")
    case (Inl err)
    then have ab: "getStructuralDiff A B = Inl TypeError"
      using error_TypeError[of err] by simp
    then have ba: "getStructuralDiff B A = Inl TypeError"
      using raise by simp
    show ?thesis
      using ab ba by (simp add: isStructurallyEquivalentTo_def)
  next
    case (Inr ds)
    then obtain gA gB where g: "groupNodesByType A = Inr gA" "groupNodesByType B = Inr gB"
      by (auto simp: getStructuralDiff_def split: sum.splits)
    have sym: "classDiff A B gA gB ct = [] \<longleftrightarrow> classDiff B A gB gA ct = []" for ct
      by (rule classDiff_sym[OF assms groupNodesByType_Inr(1)[OF g(1)]
            groupNodesByType_Inr(1)[OF g(2)]])
    have empty: "getStructuralDiff A B = Inr [] \<longleftrightarrow> getStructuralDiff B A = Inr []"
      unfolding getStructuralDiff_empty_iff[OF g] getStructuralDiff_empty_iff[OF g(2,1)]
      using sym by (simp add: Un_commute)
    obtain ds' where ds': "getStructuralDiff B A = Inr ds'"
      using getStructuralDiff_Inr[OF g(2,1)] by simp
    have "ds = [] \<longleftrightarrow> ds' = []"
      using empty Inr ds' by simp
    then show ?thesis
      using Inr ds' by (simp add: isStructurallyEquivalentTo_def)
  qed
qed

theorem equivalence_symmetric_witness:
  "wf_workflow workflow1 \<and> wf_workflow workflow2
   \<and> getStructuralDiff workflow1 workflow2 = Inr [] \<and> getStructuralDiff workflow2 workflow1 = Inr []
   \<and> wf_workflow sampleWorkflow \<and> wf_workflow variantWorkflow
   \<and> getStructuralDiff sampleWorkflow variantWorkflow \<noteq> Inr []
   \<and> getStructuralDiff variantWorkflow sampleWorkflow \<noteq> Inr []
   \<and> isStructurallyEquivalentTo sampleWorkflow variantWorkflow = Inr False
   \<and> isStructurallyEquivalentTo variantWorkflow sampleWorkflow = Inr False
   \<and> wf_workflow prototypeClassWorkflow
   \<and> getStructuralDiff workflow1 prototypeClassWorkflow = Inl TypeError
   \<and> getStructuralDiff prototypeClassWorkflow workflow1 = Inl TypeError"
proof -
  have w1: "wf_workflow workflow1" and w2: "wf_workflow workflow2"
    by (simp_all add: wf_workflow_def workflow1_def workflow2_def)
  have ws: "wf_workflow sampleWorkflow" and wv: "wf_workflow variantWorkflow"
    by (simp_all add: wf_workflow_def sampleWorkflow_def variantWorkflow_def)
  have wp: "wf_workflow prototypeClassWorkflow"
    by (simp add: wf_workflow_def prototypeClassWorkflow_def)
  have e: "getStructuralDiff workflow1 workflow2 = Inr []"
    by code_simp
  have n: "getStructuralDiff sampleWorkflow variantWorkflow \<noteq> Inr []"
    by code_simp
  have v: "isStructurallyEquivalentTo sampleWorkflow variantWorkflow = Inr False"
    by code_simp
  have t: "getStructuralDiff workflow1 prototypeClassWorkflow = Inl TypeError"
    by code_simp
  from equivalence_symmetric[OF w1 w2] e
  have e': "getStructuralDiff workflow2 workflow1 = Inr []" by blast
  from equivalence_symmetric[OF ws wv] n
  have n': "getStructuralDiff variantWorkflow sampleWorkflow \<noteq> Inr []" by blast
  from equivalence_symmetric[OF ws wv, THEN conjunct2, THEN conjunct1] v
  have v': "isStructurallyEquivalentTo variantWorkflow sampleWorkflow = Inr False" by simp
  from equivalence_symmetric[OF w1 wp] t
  have t': "getStructuralDiff prototypeClassWorkflow workflow1 = Inl TypeError" by blast
  from w1 w2 e e' ws wv n n' v v' wp t t' show ?thesis by (intro conjI)
qed

section \<open>Returned values and the graph's state\<close>

text \<open>
  Claim C8 says that every query operation returns a deep copy, so that no mutation of a
  returned value changes the graph. For \<^verbatim>\<open>getInput\<close> and \<^verbatim>\<open>getInputs\<close> this fails on a
  connection-valued input: both hand out the reference to the stored array, and an
  assignment to an element of that array by the caller changes the stored input (here the
  source of the connection of node 2 becomes \<open>x\<close>). \<^verbatim>\<open>getNode\<close> on the same node returns a
  reference to a new array, and the same assignment through it leaves the graph as it was.
\<close>

theorem getInput_shares_connection_array:
  "getInput sampleStored ''2'' ''vae'' = Some (ArrayRef 0)
   \<and> getInputs sampleStored ''2'' = Some [(''vae'', ArrayRef 0)]
   \<and> storedState sampleHeap sampleStored =
        [(''1'', ''VAELoader'', []),
         (''2'', ''VAEEncode'', [(''vae'', Array [PString ''1'', PNumber 0])])]
   \<and> storedState (arrayAssign sampleHeap 0 0 (PString ''x'')) sampleStored =
        [(''1'', ''VAELoader'', []),
         (''2'', ''VAEEncode'', [(''vae'', Array [PString ''x'', PNumber 0])])]
   \<and> map_option inputSlots (snd (getNode sampleHeap sampleStored ''2'')) = Some [(''vae'', ArrayRef 1)]
   \<and> storedState (arrayAssign (fst (getNode sampleHeap sampleStored ''2'')) 1 0 (PString ''x''))
        sampleStored = storedState sampleHeap sampleStored"
  by (simp add: getInput_def getInputs_def getNode_def cloneNode_def storedState_def readSlot_def
        arrayAssign_def sampleHeap_def sampleStored_def jsonElement_def)

end
